theory Spec2Isabelle
  imports Complex_Main "HOL-Library.Word"
begin

section \<open>Machine integers\<close>

text \<open>
  The sources declare sizes, orders and indices as \<open>Int\<close> and the counter of the
  expansion loop as \<open>int\<close>.  The typedef of \<open>Int\<close> is outside the given sources; it
  is taken to be the unsigned integer of the same width as \<open>int\<close>, 32 bits.  A value of
  either type is a 32-bit word: arithmetic wraps around, \<open>unat\<close> reads a word as an
  \<open>Int\<close> and \<open>sint\<close> as an \<open>int\<close> in two's complement.  Where an \<open>int\<close> meets an
  \<open>Int\<close> in an expression the operation is the unsigned one, and a conversion between
  the two keeps the bits.  The type is called \<open>Int_t\<close> here because \<open>Int\<close> is a
  reserved word of the logic's syntax.
\<close>

type_synonym Int_t = "32 word"

section \<open>Flattened index space (src/field/dg.h, lines 24-28)\<close>

text \<open>
  The macros \<open>INDEX4\<close> and \<open>INDEX3\<close> refer to the process-wide order triple
  \<open>NPX, NPY, NPZ\<close>, declared \<open>extern Int\<close>; here the triple is passed explicitly.
  The products associate to the left, as in the macro text, and wrap around with the
  type.
\<close>

definition INDEX4 ::
  "Int_t \<Rightarrow> Int_t \<Rightarrow> Int_t \<Rightarrow> Int_t \<Rightarrow> Int_t \<Rightarrow> Int_t \<Rightarrow> Int_t \<Rightarrow> Int_t" where
  "INDEX4 NPX NPY NPZ c i j k = c * NPX * NPY * NPZ + i * NPY * NPZ + j * NPZ + k"

definition INDEX3 :: "Int_t \<Rightarrow> Int_t \<Rightarrow> Int_t \<Rightarrow> Int_t \<Rightarrow> Int_t \<Rightarrow> Int_t" where
  "INDEX3 NPY NPZ i j k = i * NPY * NPZ + j * NPZ + k"

section \<open>Field expansion (src/field/dg.h, lines 54-71)\<close>

text \<open>
  A mesh field is a linearly addressed array, modelled as a list; \<open>cF.size()\<close> is its
  length as an \<open>Int\<close>.  Accessing an index outside the array, dividing by a zero block
  size and reading the block size when no branch assigned it are failures of the
  program; each is a value of \<open>error\<close>.
\<close>

datatype error = OutOfBounds | DivisionByZero | UnassignedBlock | UnassignedUstar

text \<open>
  The entity kind is the second template argument of \<open>expand\<close>.  The source names
  \<open>CELL\<close> and \<open>FACET\<close>; its \<open>else if\<close> leaves every other kind (here \<open>VERTEX\<close>)
  without a block size.
\<close>

datatype ENTITY = CELL | FACET | VERTEX

text \<open>
  The order metadata read by \<open>expand\<close>: \<open>NPMAT\<close> is the expansion table, of which
  only the test against null is used (\<open>True\<close>: allocated), \<open>NP\<close> the number of nodes per
  cell and \<open>NPF\<close> the number of nodes per face.
\<close>

record dg_order =
  NPMAT :: bool
  NP :: Int_t
  NPF :: Int_t

text \<open>The assignment of \<open>block\<close> in lines 58-62; \<open>None\<close> when no branch is taken.\<close>

definition select_block :: "dg_order \<Rightarrow> ENTITY \<Rightarrow> Int_t option" where
  "select_block dg entity =
     (if entity = CELL then Some (NP dg)
      else if entity = FACET then Some (NPF dg)
      else None)"

text \<open>
  The inner loop \<open>for(Int j = 0; j < block; j++) cF[i - j] = C\<close>, entered with a
  given \<open>j\<close>.  The index \<open>i - j\<close> is computed in \<open>Int\<close>: below zero it wraps to a
  large index.
\<close>

function fill :: "'a \<Rightarrow> Int_t \<Rightarrow> Int_t \<Rightarrow> Int_t \<Rightarrow> 'a list \<Rightarrow> error + 'a list" where
  "fill C i block j cF =
     (if j < block then
        (if unat (i - j) < length cF
         then fill C i block (j + 1) (cF[unat (i - j) := C])
         else Inl OutOfBounds)
      else Inr cF)"
  by pat_completeness auto
termination
proof (relation "measure (\<lambda>(C, i, block, j, cF). unat block - unat j)")
  show "wf (measure (\<lambda>(C, i, block, j, cF). unat block - unat j))" by simp
next
  fix C :: 'a and i block j :: Int_t and cF :: "'a list"
  assume "j < block"
  then show "((C, i, block, j + 1, cF[unat (i - j) := C]), (C, i, block, j, cF))
       \<in> measure (\<lambda>(C, i, block, j, cF). unat block - unat j)"
    by simp unat_arith
qed

text \<open>
  The outer loop \<open>for(int i = cF.size() - 1; i >= 0; i -= block)\<close>, entered with a
  given \<open>i\<close>.  The test \<open>i >= 0\<close> reads the counter as an \<open>int\<close>; \<open>i / block\<close> and
  \<open>i -= block\<close> are computed in \<open>Int\<close>, and the loop ends when the subtraction wraps
  to a word whose sign bit is set.

  \<open>countdown\<close> bounds the number of passes that remain: the counter falls while the
  block size is at most \<open>2^31\<close> and climbs towards the sign bit otherwise.
\<close>

definition countdown :: "Int_t \<Rightarrow> Int_t \<Rightarrow> nat" where
  "countdown block i =
     (if sint i < 0 then 0
      else if unat block \<le> 2147483648 then 1 + unat i
      else 1 + (2147483648 - unat i))"

function expand_loop :: "Int_t \<Rightarrow> Int_t \<Rightarrow> 'a list \<Rightarrow> error + 'a list" where
  "expand_loop block i cF =
     (if 0 \<le> sint i then
        (if block = 0 then Inl DivisionByZero
         else
           (let ii = i div block in
            if unat ii < length cF then
              (case fill (cF ! unat ii) i block 0 cF of
                 Inl e \<Rightarrow> Inl e
               | Inr cF' \<Rightarrow> expand_loop block (i - block) cF')
            else Inl OutOfBounds))
      else Inr cF)"
  by pat_completeness auto
termination
proof (relation "measure (\<lambda>(block, i, cF). countdown block i)")
  show "wf (measure (\<lambda>(block, i, cF). countdown block i))" by simp
next
  fix block i :: Int_t and cF cF' :: "'a list"
  assume i: "0 \<le> sint i" and b: "block \<noteq> 0"
  have range: "unat w < 4294967296" for w :: Int_t
  proof -
    have "unat w < 2 ^ LENGTH(32)" by (rule unsigned_less)
    then show ?thesis by simp
  qed
  have sign: "sint w < 0 \<longleftrightarrow> 2147483648 \<le> unat w" for w :: Int_t
  proof -
    have "sint w = take_bit 32 (uint w + 2 ^ 31) - 2 ^ 31"
      by (simp add: sint_uint signed_take_bit_eq_take_bit_shift)
    also have "\<dots> = (uint w + 2147483648) mod 4294967296 - 2147483648"
      by (simp add: take_bit_eq_mod)
    finally have s: "sint w = (uint w + 2147483648) mod 4294967296 - 2147483648" .
    have u: "uint w = int (unat w)" by simp
    show ?thesis
    proof (cases "unat w < 2147483648")
      case True
      then have "(int (unat w) + 2147483648) mod 4294967296 = int (unat w) + 2147483648"
        by (intro mod_pos_pos_trivial) linarith+
      with True show ?thesis unfolding s u by linarith
    next
      case False
      have "int (unat w) + 2147483648 = (int (unat w) - 2147483648) + 4294967296"
        by (simp del: of_nat_unat)
      then have "(int (unat w) + 2147483648) mod 4294967296 =
                 (int (unat w) - 2147483648) mod 4294967296"
        by (simp only: mod_add_self2)
      also have "\<dots> = int (unat w) - 2147483648"
        using False range[of w] by (intro mod_pos_pos_trivial) linarith+
      finally show ?thesis using False range[of w] unfolding s u by linarith
    qed
  qed
  have u: "unat i < 2147483648" using i sign[of i] by linarith
  have b1: "1 \<le> unat block" using b by (simp add: unat_gt_0 Suc_leI)
  have d: "unat (i - block) =
      (if unat block \<le> unat i then unat i - unat block else unat i + 4294967296 - unat block)"
    by (simp add: unat_sub_if')
  have p: "\<not> 2147483648 \<le> unat i" using u by simp
  have "countdown block (i - block) < countdown block i"
    unfolding countdown_def sign d using u b1 range[of block] p by (simp split: if_splits) arith
  then show "((block, i - block, cF'), (block, i, cF))
       \<in> measure (\<lambda>(block, i, cF). countdown block i)"
    by simp
qed

text \<open>
  \<open>expand\<close>: nothing happens without an expansion table.  The counter starts at
  \<open>cF.size() - 1\<close> converted to \<open>int\<close>.  When no branch assigns the block size, the
  loop reads it in its first pass; a field that fails the first test never gets there.
\<close>

definition expand :: "dg_order \<Rightarrow> ENTITY \<Rightarrow> 'a list \<Rightarrow> error + 'a list" where
  "expand dg entity cF =
     (if NPMAT dg then
        (case select_block dg entity of
           Some block \<Rightarrow> expand_loop block (word_of_nat (length cF) - 1) cF
         | None \<Rightarrow> if 0 \<le> sint (word_of_nat (length cF) - 1 :: Int_t)
                   then Inl UnassignedBlock else Inr cF)
      else Inr cF)"

definition expand_twice :: "dg_order \<Rightarrow> ENTITY \<Rightarrow> 'a list \<Rightarrow> error + 'a list" where
  "expand_twice dg entity cF =
     (case expand dg entity cF of Inl e \<Rightarrow> Inl e | Inr cF' \<Rightarrow> expand dg entity cF')"

subsection \<open>The same loops, recording every access to the field\<close>

text \<open>
  To speak about the order of reads and writes, the loops are run once more with a trace:
  \<open>Read ii\<close> for \<open>type C = cF[ii]\<close> and \<open>Write d\<close> for \<open>cF[d] = C\<close>, in program
  order.  Apart from the trace the text is that of \<open>fill\<close>, \<open>expand_loop\<close> and
  \<open>expand\<close>.
\<close>

datatype access = Read nat | Write nat

function fill_log ::
  "'a \<Rightarrow> Int_t \<Rightarrow> Int_t \<Rightarrow> Int_t \<Rightarrow> 'a list \<times> access list \<Rightarrow>
   error + 'a list \<times> access list" where
  "fill_log C i block j (cF, tr) =
     (if j < block then
        (if unat (i - j) < length cF
         then fill_log C i block (j + 1)
                (cF[unat (i - j) := C], tr @ [Write (unat (i - j))])
         else Inl OutOfBounds)
      else Inr (cF, tr))"
  by pat_completeness auto
termination
proof (relation "measure (\<lambda>(C, i, block, j, s). unat block - unat j)")
  show "wf (measure (\<lambda>(C, i, block, j, s). unat block - unat j))" by simp
next
  fix C :: 'a and i block j :: Int_t and cF :: "'a list" and tr :: "access list"
  assume "j < block"
  then show "((C, i, block, j + 1, cF[unat (i - j) := C], tr @ [Write (unat (i - j))]),
              (C, i, block, j, cF, tr))
       \<in> measure (\<lambda>(C, i, block, j, s). unat block - unat j)"
    by simp unat_arith
qed

function expand_loop_log ::
  "Int_t \<Rightarrow> Int_t \<Rightarrow> 'a list \<times> access list \<Rightarrow> error + 'a list \<times> access list" where
  "expand_loop_log block i (cF, tr) =
     (if 0 \<le> sint i then
        (if block = 0 then Inl DivisionByZero
         else
           (let ii = i div block in
            if unat ii < length cF then
              (case fill_log (cF ! unat ii) i block 0 (cF, tr @ [Read (unat ii)]) of
                 Inl e \<Rightarrow> Inl e
               | Inr s \<Rightarrow> expand_loop_log block (i - block) s)
            else Inl OutOfBounds))
      else Inr (cF, tr))"
  by pat_completeness auto
termination
proof (relation "measure (\<lambda>(block, i, s). countdown block i)")
  show "wf (measure (\<lambda>(block, i, s). countdown block i))" by simp
next
  fix block i :: Int_t and s s' :: "'a list \<times> access list"
  assume i: "0 \<le> sint i" and b: "block \<noteq> 0"
  have range: "unat w < 4294967296" for w :: Int_t
  proof -
    have "unat w < 2 ^ LENGTH(32)" by (rule unsigned_less)
    then show ?thesis by simp
  qed
  have sign: "sint w < 0 \<longleftrightarrow> 2147483648 \<le> unat w" for w :: Int_t
  proof -
    have "sint w = take_bit 32 (uint w + 2 ^ 31) - 2 ^ 31"
      by (simp add: sint_uint signed_take_bit_eq_take_bit_shift)
    also have "\<dots> = (uint w + 2147483648) mod 4294967296 - 2147483648"
      by (simp add: take_bit_eq_mod)
    finally have s: "sint w = (uint w + 2147483648) mod 4294967296 - 2147483648" .
    have u: "uint w = int (unat w)" by simp
    show ?thesis
    proof (cases "unat w < 2147483648")
      case True
      then have "(int (unat w) + 2147483648) mod 4294967296 = int (unat w) + 2147483648"
        by (intro mod_pos_pos_trivial) linarith+
      with True show ?thesis unfolding s u by linarith
    next
      case False
      have "int (unat w) + 2147483648 = (int (unat w) - 2147483648) + 4294967296"
        by (simp del: of_nat_unat)
      then have "(int (unat w) + 2147483648) mod 4294967296 =
                 (int (unat w) - 2147483648) mod 4294967296"
        by (simp only: mod_add_self2)
      also have "\<dots> = int (unat w) - 2147483648"
        using False range[of w] by (intro mod_pos_pos_trivial) linarith+
      finally show ?thesis using False range[of w] unfolding s u by linarith
    qed
  qed
  have u: "unat i < 2147483648" using i sign[of i] by linarith
  have b1: "1 \<le> unat block" using b by (simp add: unat_gt_0 Suc_leI)
  have d: "unat (i - block) =
      (if unat block \<le> unat i then unat i - unat block else unat i + 4294967296 - unat block)"
    by (simp add: unat_sub_if')
  have p: "\<not> 2147483648 \<le> unat i" using u by simp
  have "countdown block (i - block) < countdown block i"
    unfolding countdown_def sign d using u b1 range[of block] p by (simp split: if_splits) arith
  then show "((block, i - block, s'), (block, i, s))
       \<in> measure (\<lambda>(block, i, s). countdown block i)"
    by simp
qed

definition expand_log :: "dg_order \<Rightarrow> ENTITY \<Rightarrow> 'a list \<Rightarrow> error + 'a list \<times> access list" where
  "expand_log dg entity cF =
     (if NPMAT dg then
        (case select_block dg entity of
           Some block \<Rightarrow> expand_loop_log block (word_of_nat (length cF) - 1) (cF, [])
         | None \<Rightarrow> if 0 \<le> sint (word_of_nat (length cF) - 1 :: Int_t)
                   then Inl UnassignedBlock else Inr (cF, []))
      else Inr (cF, []))"

text \<open>The indices read, in program order.\<close>

fun reads :: "access list \<Rightarrow> nat list" where
  "reads [] = []"
| "reads (Read e # l) = e # reads l"
| "reads (Write d # l) = reads l"

text \<open>
  \<open>clobber_free W l\<close>: going through the trace \<open>l\<close> with the indices \<open>W\<close> already
  written, no index is read after it was written.
\<close>

fun clobber_free :: "nat list \<Rightarrow> access list \<Rightarrow> bool" where
  "clobber_free W [] = True"
| "clobber_free W (Read e # l) = (e \<notin> set W \<and> clobber_free W l)"
| "clobber_free W (Write d # l) = clobber_free (d # W) l"

text \<open>
  The accesses of one pass of the outer loop for element \<open>e\<close>: its representative is
  read, then its node slots are written from the highest down.
\<close>

definition element_accesses :: "nat \<Rightarrow> nat \<Rightarrow> access list" where
  "element_accesses block e = Read e # map Write (rev [e * block..<e * block + block])"

subsection \<open>The flattening without wrap-around, and its inverse\<close>

text \<open>
  The value the macros have when no product leaves the range of \<open>Int\<close>, as natural
  numbers, and the tuple an offset comes from.
\<close>

definition flat4 :: "nat \<Rightarrow> nat \<Rightarrow> nat \<Rightarrow> nat \<Rightarrow> nat \<Rightarrow> nat \<Rightarrow> nat \<Rightarrow> nat" where
  "flat4 nx ny nz c i j k = c * nx * ny * nz + i * ny * nz + j * nz + k"

definition flat3 :: "nat \<Rightarrow> nat \<Rightarrow> nat \<Rightarrow> nat \<Rightarrow> nat \<Rightarrow> nat" where
  "flat3 ny nz i j k = i * ny * nz + j * nz + k"

definition unflat3 :: "nat \<Rightarrow> nat \<Rightarrow> nat \<Rightarrow> nat \<times> nat \<times> nat" where
  "unflat3 ny nz n = (n div nz div ny, n div nz mod ny, n mod nz)"

definition unflat4 :: "nat \<Rightarrow> nat \<Rightarrow> nat \<Rightarrow> nat \<Rightarrow> nat \<times> nat \<times> nat \<times> nat" where
  "unflat4 nx ny nz n =
     (n div nz div ny div nx, n div nz div ny mod nx, n div nz mod ny, n mod nz)"

section \<open>Reference-space gradient of a basis function (src/field/dg.h, lines 30-34)\<close>

text \<open>
  \<open>Vector\<close> is the three-component vector of the field layer; \<open>vcomp v m\<close> is its
  component \<open>m\<close>.  The basis tables \<open>psi[dir][basis][node]\<close> and
  \<open>dpsi[dir][basis][node]\<close> are filled elsewhere; they are lookup functions here.
  The macro \<open>DPSI(i,j,k)\<close> takes \<open>ii, jj, kk\<close> from the scope it is expanded in.
  \<open>Scalar\<close> is any type with a multiplication, of which no law is used; the products
  associate to the left, as written.
\<close>

datatype 'a Vector = Vector 'a 'a 'a

fun vcomp :: "'a Vector \<Rightarrow> nat \<Rightarrow> 'a" where
  "vcomp (Vector a b c) m = (if m = 0 then a else if m = 1 then b else c)"

definition DPSI ::
  "(nat \<Rightarrow> nat \<Rightarrow> nat \<Rightarrow> 'a::times) \<Rightarrow> (nat \<Rightarrow> nat \<Rightarrow> nat \<Rightarrow> 'a) \<Rightarrow>
   nat \<Rightarrow> nat \<Rightarrow> nat \<Rightarrow> nat \<Rightarrow> nat \<Rightarrow> nat \<Rightarrow> 'a Vector" where
  "DPSI psi dpsi ii jj kk i j k =
     (let dpsi_j_0 = dpsi 0 ii i * psi 1 jj j * psi 2 kk k;
          dpsi_j_1 = psi 0 ii i * dpsi 1 jj j * psi 2 kk k;
          dpsi_j_2 = psi 0 ii i * psi 1 jj j * dpsi 2 kk k
      in Vector dpsi_j_0 dpsi_j_1 dpsi_j_2)"

section \<open>Turbulence models (src/turbulence/turbulence.h)\<close>

text \<open>
  \<open>Scalar\<close> is a type parameter \<open>'s\<close>.  Its arithmetic is that of the classes
  \<open>times\<close>, \<open>inverse\<close>, \<open>minus\<close> and \<open>zero\<close>, which fix the operations and no
  law, so nothing below depends on how the machine rounds.  A cell or facet field is the
  list of its entries; an access outside it is the error \<open>OutOfBounds\<close>.  \<open>read_at\<close>
  and \<open>write_at\<close> are the checked accesses and \<open>then_do\<close> passes the first error on.
  No arithmetic is done on the cell and face numbers, which are natural numbers here.
\<close>

definition read_at :: "'a list \<Rightarrow> nat \<Rightarrow> error + 'a" where
  "read_at fld n = (if n < length fld then Inr (fld ! n) else Inl OutOfBounds)"

definition write_at :: "'a list \<Rightarrow> nat \<Rightarrow> 'a \<Rightarrow> error + 'a list" where
  "write_at fld n v = (if n < length fld then Inr (fld[n := v]) else Inl OutOfBounds)"

definition then_do :: "error + 'a \<Rightarrow> ('a \<Rightarrow> error + 'b) \<Rightarrow> error + 'b" where
  "then_do r f = (case r of Inl e \<Rightarrow> Inl e | Inr v \<Rightarrow> f v)"

text \<open>
  Modelled from the spec: the symmetric tensor type \<open>STensor\<close> and the conversion of one
  value into a cell field belong to the field layer, which is not among the sources.  The
  spec describes a mesh field as a linearly addressable array of scalar, vector or
  symmetric tensor values.  A symmetric tensor in three dimensions has the six components
  xx, xy, xz, yy, yz, zz; \<open>STensor(s)\<close> is taken to set each of them to \<open>s\<close>, and a
  field made from one value to hold it at every one of its \<open>ncells\<close> entries.
\<close>

datatype 's STensor = STensor6 's 's 's 's 's 's

definition STensor :: "'s \<Rightarrow> 's STensor" where
  "STensor s = STensor6 s s s s s s"

definition uniform_field :: "nat \<Rightarrow> 'v \<Rightarrow> 'v list" where
  "uniform_field ncells v = replicate ncells v"

subsection \<open>Base model (lines 48-87)\<close>

record 's Turbulence_Model =
  U :: "'s Vector list"
  F :: "'s list"
  rho :: 's
  nu :: 's
  Steady :: bool

definition getReynoldsStress ::
  "nat \<Rightarrow> ('s::zero, 'z) Turbulence_Model_scheme \<Rightarrow> 's STensor list" where
  "getReynoldsStress ncells tm = uniform_field ncells (STensor 0)"

definition getK :: "nat \<Rightarrow> ('s::zero, 'z) Turbulence_Model_scheme \<Rightarrow> 's list" where
  "getK ncells tm = uniform_field ncells 0"

subsection \<open>Eddy-viscosity and k-x models (lines 92-251)\<close>

datatype Model = SMAGORNSKY | BALDWIN | KATO

datatype WallModel = NONE | STANDARD | LAUNDER

record 's EddyViscosity_Model = "'s Turbulence_Model" +
  eddy_mu :: "'s list"
  modelType :: Model
  wallModel :: WallModel

record 's KX_Model = "'s EddyViscosity_Model" +
  Cmu :: 's
  SigmaK :: 's
  SigmaX :: 's
  C1x :: 's
  C2x :: 's
  k_UR :: 's
  x_UR :: 's
  k :: "'s list"
  x :: "'s list"
  Pk :: "'s list"

text \<open>
  What \<open>applyWallFunction\<close> takes from outside the header: the mesh arrays of namespace
  \<open>Mesh\<close> (owner and neighbour cell of a face, face normals, cell centres), the law of
  the wall, and the functions of the field layer and of the C library.  \<open>lit\<close> is the
  conversion of a numeric literal to \<open>Scalar\<close>.
\<close>

record 's Mesh =
  gFO :: "nat list"
  gFN :: "nat list"
  fN :: "'s Vector list"
  cC :: "'s Vector list"

record 's LawOfWall =
  kappa :: 's
  getUstar :: "'s \<Rightarrow> 's \<Rightarrow> 's \<Rightarrow> 's"
  getUp :: "'s \<Rightarrow> 's \<Rightarrow> 's \<Rightarrow> 's"

record 's Library =
  mag :: "'s \<Rightarrow> 's"
  magV :: "'s Vector \<Rightarrow> 's"
  unit :: "'s Vector \<Rightarrow> 's Vector"
  dot :: "'s Vector \<Rightarrow> 's Vector \<Rightarrow> 's"
  subV :: "'s Vector \<Rightarrow> 's Vector \<Rightarrow> 's Vector"
  divV :: "'s Vector \<Rightarrow> 's \<Rightarrow> 's Vector"
  pow :: "'s \<Rightarrow> 's \<Rightarrow> 's"
  sqrt_s :: "'s \<Rightarrow> 's"
  lit :: "real \<Rightarrow> 's"

text \<open>\<open>getCmu\<close> of \<open>KX_Model\<close> ignores the cell.\<close>

definition getCmu :: "'s KX_Model \<Rightarrow> nat \<Rightarrow> 's" where
  "getCmu st n = Cmu st"

text \<open>
  The first branch of \<open>applyWallFunction\<close>: it yields \<open>ustar\<close>, or nothing when
  \<open>wallModel\<close> is neither \<open>STANDARD\<close> nor \<open>LAUNDER\<close> and \<open>ustar\<close> stays
  unassigned.
\<close>

definition calc_ustar ::
  "'s Library \<Rightarrow> 's LawOfWall \<Rightarrow> nat \<Rightarrow> 's \<Rightarrow> ('s::{times,inverse,minus}) KX_Model \<Rightarrow>
   error + 's option \<times> 's KX_Model" where
  "calc_ustar L low c1 y st =
     (if wallModel st = STANDARD then
        then_do (read_at (U st) c1) (\<lambda>U_c1.
        let ustar = getUstar low (nu st) (magV L U_c1) y in
        then_do (write_at (k st) c1 (pow L ustar (lit L 2) / sqrt_s L (getCmu st c1))) (\<lambda>k'.
        Inr (Some ustar, st\<lparr>k := k'\<rparr>)))
      else if wallModel st = LAUNDER then
        then_do (read_at (k st) c1) (\<lambda>k_c1.
        Inr (Some (pow L (getCmu st c1) (lit L 0.25) * sqrt_s L k_c1), st))
      else Inr (None, st))"

text \<open>
  \<open>KX_Model::applyWallFunction\<close> (lines 223-250).  \<open>calcX\<close> is pure virtual in
  \<open>KX_Model\<close> and passed in.
\<close>

definition applyWallFunction ::
  "'s Library \<Rightarrow> 's Mesh \<Rightarrow> ('s \<Rightarrow> 's \<Rightarrow> 's \<Rightarrow> 's) \<Rightarrow> nat \<Rightarrow> 's LawOfWall \<Rightarrow>
   ('s::{times,inverse,minus}) KX_Model \<Rightarrow> error + 's KX_Model" where
  "applyWallFunction L mesh calcX f low st =
     then_do (read_at (gFO mesh) f) (\<lambda>c1.
     then_do (read_at (gFN mesh) f) (\<lambda>c2.
     then_do (read_at (fN mesh) f) (\<lambda>fN_f.
     then_do (read_at (cC mesh) c1) (\<lambda>cC_c1.
     then_do (read_at (cC mesh) c2) (\<lambda>cC_c2.
     let y = mag L (dot L (unit L fN_f) (subV L cC_c1 cC_c2)) in
     then_do (calc_ustar L low c1 y st) (\<lambda>(assigned, st1).
     then_do (case assigned of None \<Rightarrow> Inl UnassignedUstar | Some u \<Rightarrow> Inr u) (\<lambda>ustar.
     then_do (write_at (x st1) c1 (calcX ustar (kappa low) y)) (\<lambda>x'.
     let st2 = st1\<lparr>x := x'\<rparr>;
         yp = (ustar * y) / nu st2;
         up = getUp low ustar (nu st2) yp in
     then_do (write_at (eddy_mu st2) c1 ((rho st2 * nu st2) * (yp / up - lit L 1))) (\<lambda>eddy_mu'.
     let st3 = st2\<lparr>eddy_mu := eddy_mu'\<rparr> in
     if wallModel st3 = LAUNDER then
       then_do (read_at (U st3) c2) (\<lambda>U_c2.
       then_do (read_at (U st3) c1) (\<lambda>U_c1.
       let mag_dudy = magV L (divV L (subV L U_c2 U_c1) y);
           mag_dudy_log = ustar / (kappa low * y) in
       then_do (read_at (eddy_mu st3) c1) (\<lambda>eddy_mu_c1.
       then_do (write_at (Pk st3) c1 ((mag_dudy * mag_dudy_log) * eddy_mu_c1)) (\<lambda>Pk'.
       Inr (st3\<lparr>Pk := Pk'\<rparr>)))))
     else Inr st3)))))))))"

text \<open>The indices \<open>applyWallFunction\<close> uses at face \<open>f\<close> are inside their arrays.\<close>

definition wall_face_ok :: "'s Mesh \<Rightarrow> 's KX_Model \<Rightarrow> nat \<Rightarrow> bool" where
  "wall_face_ok mesh st f =
     (f < length (gFO mesh) \<and> f < length (gFN mesh) \<and> f < length (fN mesh) \<and>
      gFO mesh ! f < length (cC mesh) \<and> gFN mesh ! f < length (cC mesh) \<and>
      gFO mesh ! f < length (U st) \<and> gFN mesh ! f < length (U st) \<and>
      gFO mesh ! f < length (k st) \<and> gFO mesh ! f < length (x st) \<and>
      gFO mesh ! f < length (eddy_mu st) \<and> gFO mesh ! f < length (Pk st))"

section \<open>Reading a word as an \<open>int\<close> or an \<open>Int\<close>\<close>

text \<open>
  A word is below \<open>2^32\<close> as an \<open>Int\<close>; as an \<open>int\<close> it is the same number below
  \<open>2^31\<close> and that number less \<open>2^32\<close> from there on, so that an \<open>int\<close> is not
  negative exactly when the word is below \<open>2^31\<close>.
\<close>

lemma unat_lt_32: "unat w < 4294967296" for w :: Int_t
proof -
  have "unat w < 2 ^ LENGTH(32)" by (rule unsigned_less)
  then show ?thesis by simp
qed

lemma wrap_signed:
  assumes b: "u < (4294967296 :: nat)"
  shows "(int u + 2147483648) mod 4294967296 - 2147483648 =
           (if u < 2147483648 then int u else int u - 4294967296)"
proof (cases "u < 2147483648")
  case True
  then have "(int u + 2147483648) mod 4294967296 = int u + 2147483648"
    by (intro mod_pos_pos_trivial) simp_all
  with True show ?thesis by simp
next
  case False
  have "int u + 2147483648 = (int u - 2147483648) + 4294967296" by simp
  then have "(int u + 2147483648) mod 4294967296 = (int u - 2147483648) mod 4294967296"
    by (simp only: mod_add_self2)
  also have "\<dots> = int u - 2147483648"
    using False b by (intro mod_pos_pos_trivial) simp_all
  finally show ?thesis using False by simp
qed

lemma sint_32:
  "sint w = (if unat w < 2147483648 then int (unat w) else int (unat w) - 4294967296)"
  for w :: Int_t
proof -
  have "sint w = take_bit 32 (uint w + 2 ^ 31) - 2 ^ 31"
    by (simp add: sint_uint signed_take_bit_eq_take_bit_shift)
  also have "\<dots> = (uint w + 2147483648) mod 4294967296 - 2147483648"
    by (simp add: take_bit_eq_mod)
  finally have s: "sint w = (uint w + 2147483648) mod 4294967296 - 2147483648" .
  have u: "uint w = int (unat w)" by simp
  show ?thesis unfolding s u by (rule wrap_signed[OF unat_lt_32])
qed

lemma sint_nonneg_32: "0 \<le> sint w \<longleftrightarrow> unat w < 2147483648" for w :: Int_t
proof -
  have "unat w < 4294967296" by (rule unat_lt_32)
  then show ?thesis unfolding sint_32 by (simp del: of_nat_unat)
qed

lemma block_pos: "1 \<le> block \<longleftrightarrow> block \<noteq> 0" for block :: Int_t
  by (simp add: word_le_nat_alt unat_gt_0 Suc_le_eq)

lemma unat_succ_below: "j < block \<Longrightarrow> unat (j + 1) = unat j + 1" for j block :: Int_t
  by unat_arith

lemma unat_counter:
  assumes "0 < N" and "N \<le> 2147483648"
  shows "unat (word_of_nat N - 1 :: Int_t) = N - 1"
proof -
  have u: "unat (word_of_nat N :: Int_t) = N" using assms(2) by (simp add: unat_of_nat)
  then have "(word_of_nat N :: Int_t) \<noteq> 0" using assms(1) by (metis unat_0 less_numeral_extra(3))
  then have "unat (word_of_nat N - 1 :: Int_t) = unat (word_of_nat N :: Int_t) - 1"
    by (rule unat_minus_one)
  with u show ?thesis by simp
qed

section \<open>Arithmetic of blocks\<close>

text \<open>Slot \<open>j\<close> of block \<open>e\<close> is the index \<open>e * block + j\<close>.\<close>

lemma slot_div: "j < block \<Longrightarrow> (e * block + j) div block = e" for e :: nat
  by (intro div_nat_eqI) (auto simp: algebra_simps)

lemma slot_lt: "j < block \<Longrightarrow> e < n \<Longrightarrow> e * block + j < n * block" for e :: nat
proof -
  assume j: "j < block" and e: "e < n"
  then have "Suc e * block \<le> n * block" by (intro mult_le_mono1) simp
  with j show ?thesis by simp
qed

lemma div_block_lt: "0 < block \<Longrightarrow> idx < n * block \<Longrightarrow> idx div block < n" for idx :: nat
  by (simp add: less_mult_imp_div_less)

section \<open>The flattening without wrap-around is a bijection\<close>

text \<open>
  Both macros are nested: the index is built from the outermost coordinate inwards, each
  step multiplying by the next extent and adding the next coordinate.  Division and
  remainder undo the steps one by one.
\<close>

lemma flat3_nested: "flat3 ny nz i j k = (i * ny + j) * nz + k"
  for i j k :: nat
  by (simp add: flat3_def algebra_simps)

lemma flat4_nested: "flat4 nx ny nz c i j k = ((c * nx + i) * ny + j) * nz + k"
  for i j k :: nat
  by (simp add: flat4_def algebra_simps)

lemma flat4_flat3: "flat4 nx ny nz c i j k = c * (nx * ny * nz) + flat3 ny nz i j k"
  for i j k :: nat
  by (simp add: flat4_def flat3_def)

lemma flat3_less:
  "i < nx \<Longrightarrow> j < ny \<Longrightarrow> k < nz \<Longrightarrow> flat3 ny nz i j k < nx * ny * nz"
  for i j k :: nat
  unfolding flat3_nested by (intro slot_lt)

lemma flat4_less:
  "c < nc \<Longrightarrow> i < nx \<Longrightarrow> j < ny \<Longrightarrow> k < nz \<Longrightarrow>
   flat4 nx ny nz c i j k < nc * nx * ny * nz"
  for i j k :: nat
  unfolding flat4_nested by (intro slot_lt)

lemma unflat3_flat3:
  "j < ny \<Longrightarrow> k < nz \<Longrightarrow> unflat3 ny nz (flat3 ny nz i j k) = (i, j, k)"
  for i j k :: nat
  by (simp add: unflat3_def flat3_nested slot_div)

lemma unflat4_flat4:
  "i < nx \<Longrightarrow> j < ny \<Longrightarrow> k < nz \<Longrightarrow>
   unflat4 nx ny nz (flat4 nx ny nz c i j k) = (c, i, j, k)"
  for i j k :: nat
  by (simp add: unflat4_def flat4_nested slot_div)

lemma flat3_unflat3:
  "(case unflat3 ny nz q of (i, j, k) \<Rightarrow> flat3 ny nz i j k) = q"
  for k :: nat
  by (simp add: unflat3_def flat3_nested)

lemma flat4_unflat4:
  "(case unflat4 nx ny nz q of (c, i, j, k) \<Rightarrow> flat4 nx ny nz c i j k) = q"
  for k :: nat
  by (simp add: unflat4_def flat4_nested)

lemma unflat3_range:
  assumes "q < nx * ny * nz"
  shows "unflat3 ny nz q \<in> {..<nx} \<times> {..<ny} \<times> {..<nz}"
proof -
  have z: "0 < nz" using assms by (cases "nz = 0") simp_all
  have y: "0 < ny" using assms by (cases "ny = 0") simp_all
  have "q div nz < nx * ny" by (rule div_block_lt[OF z assms])
  then have "q div nz div ny < nx" by (rule div_block_lt[OF y])
  then show ?thesis using y z by (simp add: unflat3_def)
qed

lemma unflat4_range:
  assumes "q < nc * nx * ny * nz"
  shows "unflat4 nx ny nz q \<in> {..<nc} \<times> {..<nx} \<times> {..<ny} \<times> {..<nz}"
proof -
  have z: "0 < nz" using assms by (cases "nz = 0") simp_all
  have y: "0 < ny" using assms by (cases "ny = 0") simp_all
  have px: "0 < nx" using assms by (cases "nx = 0") simp_all
  have "q div nz < nc * nx * ny" by (rule div_block_lt[OF z assms])
  then have "q div nz div ny < nc * nx" by (rule div_block_lt[OF y])
  then have "q div nz div ny div nx < nc" by (rule div_block_lt[OF px])
  then show ?thesis using px y z by (simp add: unflat4_def)
qed

lemma flat4_bij:
  "bij_betw (\<lambda>(c, i, j, k). flat4 nx ny nz c i j k)
     ({..<nc} \<times> {..<nx} \<times> {..<ny} \<times> {..<nz}) {..<nc * nx * ny * nz}"
  for k :: nat
proof (rule bij_betw_byWitness[where f' = "unflat4 nx ny nz"])
  show "\<forall>a\<in>{..<nc} \<times> {..<nx} \<times> {..<ny} \<times> {..<nz}.
     unflat4 nx ny nz (case a of (c, i, j, k) \<Rightarrow> flat4 nx ny nz c i j k) = a"
    by (auto simp: unflat4_flat4)
  show "\<forall>a'\<in>{..<nc * nx * ny * nz}.
     (case unflat4 nx ny nz a' of (c, i, j, k) \<Rightarrow> flat4 nx ny nz c i j k) = a'"
    by (simp add: flat4_unflat4)
  show "(\<lambda>(c, i, j, k). flat4 nx ny nz c i j k) `
     ({..<nc} \<times> {..<nx} \<times> {..<ny} \<times> {..<nz}) \<subseteq> {..<nc * nx * ny * nz}"
    by (auto simp: flat4_less)
  show "unflat4 nx ny nz ` {..<nc * nx * ny * nz}
     \<subseteq> {..<nc} \<times> {..<nx} \<times> {..<ny} \<times> {..<nz}"
    using unflat4_range by blast
qed

lemma flat3_image:
  "(\<lambda>(i, j, k). flat3 ny nz i j k) ` ({..<nx} \<times> {..<ny} \<times> {..<nz}) = {..<nx * ny * nz}"
  for k :: nat
proof (intro equalityI subsetI)
  fix q assume "q \<in> (\<lambda>(i, j, k). flat3 ny nz i j k) ` ({..<nx} \<times> {..<ny} \<times> {..<nz})"
  then show "q \<in> {..<nx * ny * nz}" by (auto simp: flat3_less)
next
  fix q assume "q \<in> {..<nx * ny * nz}"
  then have q: "q < nx * ny * nz" by simp
  obtain i j k' where u: "unflat3 ny nz q = (i, j, k')" by (cases "unflat3 ny nz q")
  have "(i, j, k') \<in> {..<nx} \<times> {..<ny} \<times> {..<nz}" using unflat3_range[OF q] u by simp
  moreover have "flat3 ny nz i j k' = q" using flat3_unflat3[of ny nz q] u by simp
  ultimately show "q \<in> (\<lambda>(i, j, k). flat3 ny nz i j k) ` ({..<nx} \<times> {..<ny} \<times> {..<nz})"
    by force
qed

section \<open>The macros agree with their exact values while nothing wraps\<close>

lemma INDEX4_word_of_nat:
  "INDEX4 NPX NPY NPZ c i j k =
     word_of_nat (flat4 (unat NPX) (unat NPY) (unat NPZ) (unat c) (unat i) (unat j) (unat k))"
  for i j k :: Int_t
  by (simp add: INDEX4_def flat4_def)

lemma unat_INDEX4:
  "flat4 (unat NPX) (unat NPY) (unat NPZ) (unat c) (unat i) (unat j) (unat k) < 4294967296 \<Longrightarrow>
   unat (INDEX4 NPX NPY NPZ c i j k) =
     flat4 (unat NPX) (unat NPY) (unat NPZ) (unat c) (unat i) (unat j) (unat k)"
  for i j k :: Int_t
  unfolding INDEX4_word_of_nat by (simp add: unat_of_nat)

lemma word_of_nat_below:
  assumes "n < unat N"
  shows "unat (word_of_nat n :: Int_t) = n" and "(word_of_nat n :: Int_t) < N"
proof -
  from assms have "n \<le> unat N" by simp
  then show u: "unat (word_of_nat n :: Int_t) = n" by (rule le_unat_uoi)
  with assms show "(word_of_nat n :: Int_t) < N" by (simp add: word_less_nat_alt)
qed

lemma unat4_bij:
  "bij_betw (\<lambda>(a, b, c, d). (unat a, unat b, unat c, unat d))
     ({..<NC} \<times> {..<NPX} \<times> {..<NPY} \<times> {..<NPZ})
     ({..<unat NC} \<times> {..<unat NPX} \<times> {..<unat NPY} \<times> {..<unat NPZ})"
  for NC NPX NPY NPZ :: Int_t
proof (rule bij_betw_byWitness[where
    f' = "\<lambda>(a, b, c, d). (word_of_nat a, word_of_nat b, word_of_nat c, word_of_nat d)"])
  show "\<forall>t\<in>{..<NC} \<times> {..<NPX} \<times> {..<NPY} \<times> {..<NPZ}.
     (case case t of (a, b, c, d) \<Rightarrow> (unat a, unat b, unat c, unat d) of
        (a, b, c, d) \<Rightarrow> (word_of_nat a, word_of_nat b, word_of_nat c, word_of_nat d)) = t"
    by auto
  show "\<forall>t\<in>{..<unat NC} \<times> {..<unat NPX} \<times> {..<unat NPY} \<times> {..<unat NPZ}.
     (case case t of (a, b, c, d) \<Rightarrow>
          (word_of_nat a :: Int_t, word_of_nat b :: Int_t, word_of_nat c :: Int_t,
           word_of_nat d :: Int_t) of
        (a, b, c, d) \<Rightarrow> (unat a, unat b, unat c, unat d)) = t"
    by (auto simp: word_of_nat_below)
  show "(\<lambda>(a, b, c, d). (unat a, unat b, unat c, unat d)) `
     ({..<NC} \<times> {..<NPX} \<times> {..<NPY} \<times> {..<NPZ})
     \<subseteq> {..<unat NC} \<times> {..<unat NPX} \<times> {..<unat NPY} \<times> {..<unat NPZ}"
    by (auto simp: word_less_nat_alt)
  show "(\<lambda>(a, b, c, d). (word_of_nat a, word_of_nat b, word_of_nat c, word_of_nat d)) `
     ({..<unat NC} \<times> {..<unat NPX} \<times> {..<unat NPY} \<times> {..<unat NPZ})
     \<subseteq> {..<NC} \<times> {..<NPX} \<times> {..<NPY} \<times> {..<NPZ}"
    by (auto simp: word_of_nat_below)
qed

lemma unat3_image:
  "(\<lambda>(a, b, c). (unat a, unat b, unat c)) ` ({..<NPX} \<times> {..<NPY} \<times> {..<NPZ})
     = {..<unat NPX} \<times> {..<unat NPY} \<times> {..<unat NPZ}"
  for NPX NPY NPZ :: Int_t
proof (intro equalityI subsetI)
  fix t assume "t \<in> (\<lambda>(a, b, c). (unat a, unat b, unat c)) ` ({..<NPX} \<times> {..<NPY} \<times> {..<NPZ})"
  then show "t \<in> {..<unat NPX} \<times> {..<unat NPY} \<times> {..<unat NPZ}"
    by (auto simp: word_less_nat_alt)
next
  fix t assume t: "t \<in> {..<unat NPX} \<times> {..<unat NPY} \<times> {..<unat NPZ}"
  obtain a b c where abc: "t = (a, b, c)" by (cases t)
  have a: "a < unat NPX" and b: "b < unat NPY" and c: "c < unat NPZ" using t abc by simp_all
  let ?w = "(word_of_nat a :: Int_t, word_of_nat b :: Int_t, word_of_nat c :: Int_t)"
  have "?w \<in> {..<NPX} \<times> {..<NPY} \<times> {..<NPZ}"
    using word_of_nat_below(2)[OF a] word_of_nat_below(2)[OF b] word_of_nat_below(2)[OF c]
    by simp
  moreover have "t = (\<lambda>(a, b, c). (unat a, unat b, unat c)) ?w"
    using word_of_nat_below(1)[OF a] word_of_nat_below(1)[OF b] word_of_nat_below(1)[OF c] abc
    by simp
  ultimately show "t \<in> (\<lambda>(a, b, c). (unat a, unat b, unat c)) ` ({..<NPX} \<times> {..<NPY} \<times> {..<NPZ})"
    by (rule rev_image_eqI)
qed

text \<open>
  Claim C2.  Let the number of offsets \<open>NC * NPX * NPY * NPZ\<close> be at most \<open>2^32\<close>,
  so that no in-range offset leaves the range of \<open>Int\<close>.  Then \<open>INDEX4\<close> maps the
  tuples \<open>(c, i, j, k)\<close> with \<open>c < NC\<close>, \<open>i < NPX\<close>, \<open>j < NPY\<close>, \<open>k < NPZ\<close>
  one-to-one onto the offsets below \<open>NC * NPX * NPY * NPZ\<close>.  The layout is row-major
  with \<open>k\<close> fastest: the offset of an in-range tuple is
  \<open>c * (NPX * NPY * NPZ) + i * (NPY * NPZ) + j * NPZ + k\<close>, and one step in \<open>k\<close> moves
  the offset by 1, one step in \<open>j\<close> by \<open>NPZ\<close>, one step in \<open>i\<close> by \<open>NPY * NPZ\<close>
  and one step in \<open>c\<close> by \<open>NPX * NPY * NPZ\<close>.
\<close>

theorem INDEX4_bijection_row_major:
  fixes NC NPX NPY NPZ c i j k :: Int_t
  assumes fits: "unat NC * unat NPX * unat NPY * unat NPZ \<le> 4294967296"
  shows "bij_betw (\<lambda>(c, i, j, k). unat (INDEX4 NPX NPY NPZ c i j k))
           ({..<NC} \<times> {..<NPX} \<times> {..<NPY} \<times> {..<NPZ})
           {..<unat NC * unat NPX * unat NPY * unat NPZ}
       \<and> (c < NC \<and> i < NPX \<and> j < NPY \<and> k < NPZ \<longrightarrow>
            unat (INDEX4 NPX NPY NPZ c i j k) =
              unat c * (unat NPX * unat NPY * unat NPZ) + unat i * (unat NPY * unat NPZ)
                + unat j * unat NPZ + unat k)
       \<and> INDEX4 NPX NPY NPZ c i j (k + 1) = INDEX4 NPX NPY NPZ c i j k + 1
       \<and> INDEX4 NPX NPY NPZ c i (j + 1) k = INDEX4 NPX NPY NPZ c i j k + NPZ
       \<and> INDEX4 NPX NPY NPZ c (i + 1) j k = INDEX4 NPX NPY NPZ c i j k + NPY * NPZ
       \<and> INDEX4 NPX NPY NPZ (c + 1) i j k = INDEX4 NPX NPY NPZ c i j k + NPX * NPY * NPZ"
proof -
  let ?WB = "{..<NC} \<times> {..<NPX} \<times> {..<NPY} \<times> {..<NPZ}"
  let ?NB = "{..<unat NC} \<times> {..<unat NPX} \<times> {..<unat NPY} \<times> {..<unat NPZ}"
  let ?P = "unat NC * unat NPX * unat NPY * unat NPZ"
  let ?g = "\<lambda>(a, b, c, d). (unat a, unat b, unat c, unat d)"
  let ?h = "\<lambda>(c, i, j, k). flat4 (unat NPX) (unat NPY) (unat NPZ) c i j k"
  have exact: "unat (INDEX4 NPX NPY NPZ c' i' j' k') =
      flat4 (unat NPX) (unat NPY) (unat NPZ) (unat c') (unat i') (unat j') (unat k')"
    if "c' < NC" "i' < NPX" "j' < NPY" "k' < NPZ" for c' i' j' k'
  proof -
    have "flat4 (unat NPX) (unat NPY) (unat NPZ) (unat c') (unat i') (unat j') (unat k') < ?P"
      using that by (intro flat4_less) (simp_all add: word_less_nat_alt)
    with fits show ?thesis by (intro unat_INDEX4) simp
  qed
  have "bij_betw (?h \<circ> ?g) ?WB {..<?P}"
    using unat4_bij flat4_bij by (rule bij_betw_trans)
  moreover have "(?h \<circ> ?g) a = (\<lambda>(c, i, j, k). unat (INDEX4 NPX NPY NPZ c i j k)) a"
    if "a \<in> ?WB" for a
    using that by (auto simp: exact)
  ultimately have bij: "bij_betw (\<lambda>(c, i, j, k). unat (INDEX4 NPX NPY NPZ c i j k)) ?WB {..<?P}"
    by (simp cong: bij_betw_cong)
  have row: "c < NC \<and> i < NPX \<and> j < NPY \<and> k < NPZ \<longrightarrow>
            unat (INDEX4 NPX NPY NPZ c i j k) =
              unat c * (unat NPX * unat NPY * unat NPZ) + unat i * (unat NPY * unat NPZ)
                + unat j * unat NPZ + unat k"
    by (auto simp: exact flat4_def)
  have strides: "INDEX4 NPX NPY NPZ c i j (k + 1) = INDEX4 NPX NPY NPZ c i j k + 1
       \<and> INDEX4 NPX NPY NPZ c i (j + 1) k = INDEX4 NPX NPY NPZ c i j k + NPZ
       \<and> INDEX4 NPX NPY NPZ c (i + 1) j k = INDEX4 NPX NPY NPZ c i j k + NPY * NPZ
       \<and> INDEX4 NPX NPY NPZ (c + 1) i j k = INDEX4 NPX NPY NPZ c i j k + NPX * NPY * NPZ"
    by (simp add: INDEX4_def algebra_simps)
  from bij row strides show ?thesis by blast
qed

text \<open>Claim C2, at three components and the order triple (2, 2, 2).\<close>

theorem INDEX4_bijection_row_major_witness:
  "unat (3::Int_t) * unat (2::Int_t) * unat (2::Int_t) * unat (2::Int_t) \<le> 4294967296
   \<and> bij_betw (\<lambda>(c, i, j, k). unat (INDEX4 2 2 2 c i j k))
         ({..<3} \<times> {..<2} \<times> {..<2} \<times> {..<2}) {..<24}
   \<and> unat (INDEX4 2 2 2 1 1 0 1) = 13"
  using INDEX4_bijection_row_major[of 3 2 2 2 1 1 0 1] by simp

text \<open>
  Claim C8.  \<open>INDEX4 c i j k\<close> is \<open>INDEX3 i j k\<close> moved by \<open>c\<close> whole component
  strides.  When the end of the slab of component \<open>c\<close>, \<open>(c + 1) * (NPX * NPY * NPZ)\<close>,
  is at most \<open>2^32\<close>, the positions of component \<open>c\<close> fill exactly the slab from
  \<open>c * (NPX * NPY * NPZ)\<close> up to, not including, its end; slabs of different
  components are therefore disjoint and contiguous.
\<close>

theorem INDEX4_component_slab:
  fixes NPX NPY NPZ c i j k :: Int_t
  assumes fits: "(unat c + 1) * (unat NPX * unat NPY * unat NPZ) \<le> 4294967296"
  shows "INDEX4 NPX NPY NPZ c i j k = c * NPX * NPY * NPZ + INDEX3 NPY NPZ i j k
       \<and> (\<lambda>(i, j, k). unat (INDEX4 NPX NPY NPZ c i j k)) ` ({..<NPX} \<times> {..<NPY} \<times> {..<NPZ})
           = {unat c * (unat NPX * unat NPY * unat NPZ)..<
              (unat c + 1) * (unat NPX * unat NPY * unat NPZ)}"
proof
  show "INDEX4 NPX NPY NPZ c i j k = c * NPX * NPY * NPZ + INDEX3 NPY NPZ i j k"
    by (simp add: INDEX4_def INDEX3_def)
  let ?S = "unat NPX * unat NPY * unat NPZ"
  let ?WB = "{..<NPX} \<times> {..<NPY} \<times> {..<NPZ}"
  let ?NB = "{..<unat NPX} \<times> {..<unat NPY} \<times> {..<unat NPZ}"
  let ?f3 = "\<lambda>(i, j, k). flat3 (unat NPY) (unat NPZ) i j k"
  have exact: "unat (INDEX4 NPX NPY NPZ c i' j' k') =
      unat c * ?S + flat3 (unat NPY) (unat NPZ) (unat i') (unat j') (unat k')"
    if "i' < NPX" "j' < NPY" "k' < NPZ" for i' j' k'
  proof -
    have "flat3 (unat NPY) (unat NPZ) (unat i') (unat j') (unat k') < ?S"
      using that by (intro flat3_less) (simp_all add: word_less_nat_alt)
    then have "flat4 (unat NPX) (unat NPY) (unat NPZ) (unat c) (unat i') (unat j') (unat k')
                 < 4294967296"
      unfolding flat4_flat3 using fits by simp
    then show ?thesis unfolding flat4_flat3[symmetric] by (rule unat_INDEX4)
  qed
  have "(\<lambda>(i, j, k). unat (INDEX4 NPX NPY NPZ c i j k)) ` ?WB
          = (\<lambda>t. unat c * ?S + ?f3 ((\<lambda>(a, b, c). (unat a, unat b, unat c)) t)) ` ?WB"
    by (intro image_cong) (auto simp: exact)
  also have "\<dots> = (\<lambda>q. unat c * ?S + q) ` ?f3 ` (\<lambda>(a, b, c). (unat a, unat b, unat c)) ` ?WB"
    by (simp add: image_image)
  also have "\<dots> = (\<lambda>q. unat c * ?S + q) ` {..<?S}"
    unfolding unat3_image flat3_image ..
  also have "\<dots> = {unat c * ?S..<(unat c + 1) * ?S}"
  proof (intro equalityI subsetI)
    fix q assume "q \<in> (\<lambda>q. unat c * ?S + q) ` {..<?S}"
    then show "q \<in> {unat c * ?S..<(unat c + 1) * ?S}" by auto
  next
    fix q assume "q \<in> {unat c * ?S..<(unat c + 1) * ?S}"
    then have "q - unat c * ?S \<in> {..<?S}" and "q = unat c * ?S + (q - unat c * ?S)" by auto
    then show "q \<in> (\<lambda>q. unat c * ?S + q) ` {..<?S}" by (rule rev_image_eqI)
  qed
  finally show "(\<lambda>(i, j, k). unat (INDEX4 NPX NPY NPZ c i j k)) ` ?WB
          = {unat c * ?S..<(unat c + 1) * ?S}" .
qed

text \<open>Claim C8, at the second component and the order triple (2, 2, 2).\<close>

theorem INDEX4_component_slab_witness:
  "(unat (1::Int_t) + 1) * (unat (2::Int_t) * unat (2::Int_t) * unat (2::Int_t)) \<le> 4294967296
   \<and> INDEX4 2 2 2 1 1 0 1 = 1 * 2 * 2 * 2 + INDEX3 2 2 1 0 1
   \<and> (\<lambda>(i, j, k). unat (INDEX4 2 2 2 1 i j k)) ` ({..<2} \<times> {..<2} \<times> {..<2}) = {8..<16}"
  using INDEX4_component_slab[of 1 2 2 2 1 0 1] by simp

section \<open>What one expansion computes\<close>

text \<open>
  The recursive equations of the loops are unfolded by hand, one iteration at a time.
\<close>

declare fill.simps [simp del] expand_loop.simps [simp del]

lemma fill_result:
  "j \<le> block \<Longrightarrow> unat block \<le> unat i + 1 \<Longrightarrow> unat i < length cF \<Longrightarrow>
   \<exists>cF'. fill C i block j cF = Inr cF' \<and> length cF' = length cF \<and>
     (\<forall>idx<length cF. cF' ! idx =
        (if unat i < idx + unat block \<and> idx + unat j \<le> unat i then C else cF ! idx))"
proof (induction C i block j cF rule: fill.induct)
  case (1 C i block j cF)
  show ?case
  proof (cases "j < block")
    case False
    with "1.prems" have jb: "j = block" by simp
    then have "fill C i block j cF = Inr cF" by (subst fill.simps) simp
    moreover have "\<not> (unat i < idx + unat block \<and> idx + unat j \<le> unat i)" for idx
      using jb by simp
    ultimately show ?thesis by auto
  next
    case True
    then have jlt: "unat j < unat block" by (simp add: word_less_nat_alt)
    then have jle: "unat j \<le> unat i" using "1.prems"(2) by simp
    then have "j \<le> i" by (simp add: word_le_nat_alt)
    then have sub: "unat (i - j) = unat i - unat j" by (rule unat_sub)
    have inb: "unat (i - j) < length cF" using sub "1.prems"(3) by simp
    have suc: "unat (j + 1) = unat j + 1" using True by (rule unat_succ_below)
    have jle': "j + 1 \<le> block" using True suc jlt by (simp add: word_le_nat_alt)
    let ?cF1 = "cF[unat (i - j) := C]"
    have "\<exists>cF'. fill C i block (j + 1) ?cF1 = Inr cF' \<and> length cF' = length ?cF1 \<and>
     (\<forall>idx<length ?cF1. cF' ! idx =
        (if unat i < idx + unat block \<and> idx + unat (j + 1) \<le> unat i then C else ?cF1 ! idx))"
      using "1.IH"[OF True inb jle'] "1.prems" by simp
    then obtain cF' where r: "fill C i block (j + 1) ?cF1 = Inr cF'" "length cF' = length cF"
      and p: "\<forall>idx<length cF. cF' ! idx =
        (if unat i < idx + unat block \<and> idx + (unat j + 1) \<le> unat i then C else ?cF1 ! idx)"
      unfolding suc by auto
    have f: "fill C i block j cF = Inr cF'"
      using True inb r by (subst fill.simps) simp
    have "\<forall>idx<length cF. cF' ! idx =
        (if unat i < idx + unat block \<and> idx + unat j \<le> unat i then C else cF ! idx)"
    proof (intro allI impI)
      fix idx assume l: "idx < length cF"
      show "cF' ! idx = (if unat i < idx + unat block \<and> idx + unat j \<le> unat i then C else cF ! idx)"
      proof (cases "idx = unat i - unat j")
        case True
        then show ?thesis using p l sub jle jlt by (auto simp: nth_list_update)
      next
        case False
        then show ?thesis using p l sub jle jlt by (auto simp: nth_list_update)
      qed
    qed
    with f r show ?thesis by blast
  qed
qed

lemma expand_loop_result:
  fixes block :: Int_t
  assumes b0: "block \<noteq> 0"
  shows "m * unat block \<le> length cF \<Longrightarrow> m * unat block \<le> 2147483648 \<Longrightarrow>
   \<exists>cF'. expand_loop block (word_of_nat (m * unat block) - 1) cF = Inr cF' \<and>
     length cF' = length cF \<and>
     (\<forall>idx<length cF. cF' ! idx =
        (if idx < m * unat block then cF ! (idx div unat block) else cF ! idx))"
proof (induction m arbitrary: cF)
  case 0
  then show ?case by (subst expand_loop.simps) simp
next
  case (Suc m)
  define b where "b = unat block"
  define M where "M = m * b"
  define N where "N = Suc m * b"
  define i :: Int_t where "i = word_of_nat N - 1"
  define i' :: Int_t where "i' = word_of_nat M - 1"
  have bpos: "0 < b" using b0 by (simp add: b_def unat_gt_0)
  have NM: "N = M + b" by (simp add: N_def M_def)
  have Nlen: "N \<le> length cF" and Nmax: "N \<le> 2147483648"
    using Suc.prems by (simp_all add: N_def b_def)
  have pos: "0 < N" using bpos NM by simp
  have ui: "unat i = N - 1" unfolding i_def using pos Nmax by (rule unat_counter)
  have i0: "0 \<le> sint i" unfolding sint_nonneg_32 ui using pos Nmax by linarith
  have "(N - 1) div b = m"
  proof -
    have "N - 1 = m * b + (b - 1)" using bpos NM M_def by simp
    moreover have "(m * b + (b - 1)) div b = m" using bpos by (intro slot_div) simp
    ultimately show ?thesis by simp
  qed
  then have idiv: "unat (i div block) = m" unfolding unat_div ui b_def .
  have mM: "m \<le> M" unfolding M_def using bpos by (cases b) auto
  have mlt: "m < length cF" using mM NM bpos Nlen by linarith
  obtain cF1 where f: "fill (cF ! m) i block 0 cF = Inr cF1" and l1: "length cF1 = length cF"
    and p1: "\<forall>idx<length cF. cF1 ! idx = (if M \<le> idx \<and> idx < N then cF ! m else cF ! idx)"
  proof -
    have a: "unat block \<le> unat i + 1" unfolding ui using pos NM by (simp add: b_def)
    have b: "unat i < length cF" unfolding ui using pos Nlen by linarith
    have c: "(unat i < idx + unat block \<and> idx + unat (0::Int_t) \<le> unat i) = (M \<le> idx \<and> idx < N)"
      for idx
      unfolding ui b_def[symmetric] using pos NM by auto
    from fill_result[OF word_zero_le a b, of "cF ! m"] that show ?thesis unfolding c by blast
  qed
  have step: "i - block = i'"
  proof -
    have "(word_of_nat N :: Int_t) = word_of_nat M + word_of_nat b" unfolding NM by simp
    also have "(word_of_nat b :: Int_t) = block" unfolding b_def by simp
    finally show ?thesis unfolding i_def i'_def by simp
  qed
  obtain cF' where r: "expand_loop block i' cF1 = Inr cF'"
    and l': "length cF' = length cF1"
    and p': "\<forall>idx<length cF1. cF' ! idx = (if idx < M then cF1 ! (idx div b) else cF1 ! idx)"
  proof -
    have "m * unat block \<le> length cF1" "m * unat block \<le> 2147483648"
      using Nlen Nmax NM l1 by (simp_all add: M_def b_def)
    from Suc.IH[OF this] that show ?thesis unfolding i'_def M_def b_def by blast
  qed
  have e: "expand_loop block i cF = Inr cF'"
    using i0 b0 idiv mlt f r step by (subst expand_loop.simps) (simp add: Let_def)
  have "\<forall>idx<length cF. cF' ! idx = (if idx < N then cF ! (idx div b) else cF ! idx)"
  proof (intro allI impI)
    fix idx assume l: "idx < length cF"
    show "cF' ! idx = (if idx < N then cF ! (idx div b) else cF ! idx)"
    proof (cases "idx < M")
      case True
      then have d: "idx div b < m" unfolding M_def using bpos by (intro div_block_lt)
      with mM have d2: "idx div b < M" by simp
      have "cF' ! idx = cF1 ! (idx div b)" using p' l l1 True by simp
      also have "\<dots> = cF ! (idx div b)" using p1 d mlt d2 by simp
      finally show ?thesis using True NM by simp
    next
      case False
      then have eq: "cF' ! idx = cF1 ! idx" using p' l l1 by simp
      show ?thesis
      proof (cases "idx < N")
        case True
        have "idx div b = m" using True False unfolding NM M_def
          by (intro div_nat_eqI) (simp_all add: algebra_simps)
        then show ?thesis using eq p1 l True False by simp
      next
        case False
        then show ?thesis using eq p1 l NM by simp
      qed
    qed
  qed
  with e l' l1 show ?case unfolding i_def N_def b_def by simp
qed

lemma expand_loop_negative: "sint i < 0 \<Longrightarrow> expand_loop block i cF = Inr cF"
  by (subst expand_loop.simps) simp

lemma expand_result:
  assumes t: "NPMAT dg \<or> block = 1" and s: "select_block dg entity = Some block"
    and b: "1 \<le> block" and n: "length cF = n * unat block"
    and sz: "length cF \<le> 2147483648"
  shows "\<exists>cF'. expand dg entity cF = Inr cF' \<and> length cF' = length cF \<and>
           (\<forall>idx<length cF. cF' ! idx = cF ! (idx div unat block))"
proof (cases "NPMAT dg")
  case True
  have b0: "block \<noteq> 0" using b by (simp add: block_pos)
  have 1: "n * unat block \<le> length cF" using n by simp
  have 2: "n * unat block \<le> 2147483648" using n sz by simp
  from expand_loop_result[OF b0 1 2] n True s show ?thesis
    by (simp add: expand_def)
next
  case False
  with t have "block = 1" by simp
  with False show ?thesis by (simp add: expand_def)
qed

text \<open>
  The index of the last entry is an \<open>int\<close> for a field of at most \<open>2^31\<close> entries.
  For a larger field the counter starts negative and the loop is not entered.
\<close>

lemma oversize_start:
  assumes "2147483648 < len" and "len < 4294967296"
  shows "sint (word_of_nat len - 1 :: Int_t) < 0"
proof -
  have u: "unat (word_of_nat len :: Int_t) = len" using assms(2) by (simp add: unat_of_nat)
  then have "(word_of_nat len :: Int_t) \<noteq> 0" using assms(1) by (metis unat_0 not_less0)
  then have "unat (word_of_nat len - 1 :: Int_t) = unat (word_of_nat len :: Int_t) - 1"
    by (rule unat_minus_one)
  with u have "\<not> unat (word_of_nat len - 1 :: Int_t) < 2147483648" using assms(1) by simp
  then show ?thesis using sint_nonneg_32[of "word_of_nat len - 1"] by linarith
qed

lemma expand_oversize:
  assumes "2147483648 < length cF" and "length cF < 4294967296"
  shows "expand dg entity cF = Inr cF"
proof -
  have "sint (word_of_nat (length cF) - 1 :: Int_t) < 0" using assms by (rule oversize_start)
  then show ?thesis
    by (simp add: expand_def expand_loop_negative split: option.split)
qed

text \<open>
  Claim C1.  Let a field of \<open>n * block\<close> entries, at most \<open>2^31\<close>, hold the value of
  element \<open>e\<close> at index \<open>e\<close>, where \<open>block \<ge> 1\<close> is the block size chosen for the
  field's entity kind.  Then \<open>expand\<close> succeeds, keeps the size, and afterwards every
  node slot \<open>e * block + j\<close> (\<open>j < block\<close>) of every element \<open>e < n\<close> holds the value
  the field had at index \<open>e\<close> before.  The expansion table is allocated whenever an
  element has more than one node, which is the first hypothesis; the bound on the size
  lets the loop counter, an \<open>int\<close>, start at the last index.  For \<open>NP = 8\<close> all eight
  slots of an element hold its value.
\<close>

theorem expand_copies_element_value:
  assumes "NPMAT dg \<or> block = 1" and "select_block dg entity = Some block"
    and "1 \<le> block" and "length cF = n * unat block"
    and "length cF \<le> 2147483648"
  shows "\<exists>cF'. expand dg entity cF = Inr cF' \<and> length cF' = length cF \<and>
           (\<forall>e<n. \<forall>j<unat block. cF' ! (e * unat block + j) = cF ! e)"
proof -
  obtain cF' where r: "expand dg entity cF = Inr cF'" and l: "length cF' = length cF"
    and p: "\<forall>idx<length cF. cF' ! idx = cF ! (idx div unat block)"
    using expand_result[OF assms] by blast
  have "cF' ! (e * unat block + j) = cF ! e" if "e < n" "j < unat block" for e j
    using p slot_lt[OF that(2,1)] slot_div[OF that(2)] assms(4) by simp
  with r l show ?thesis by blast
qed

text \<open>Claim C1, at a cell field of two elements with eight nodes each.\<close>

theorem expand_copies_element_value_witness:
  "(NPMAT \<lparr>NPMAT = True, NP = 8, NPF = 4\<rparr> \<or> (8::Int_t) = 1)
   \<and> select_block \<lparr>NPMAT = True, NP = 8, NPF = 4\<rparr> CELL = Some 8
   \<and> (1::Int_t) \<le> 8
   \<and> length [5, 7, 0, 0, 0, 0, 0, 0, 0, 0, 0, 0, 0, 0, 0, 0 :: int] = 2 * unat (8::Int_t)
   \<and> length [5, 7, 0, 0, 0, 0, 0, 0, 0, 0, 0, 0, 0, 0, 0, 0 :: int] \<le> 2147483648
   \<and> (case expand \<lparr>NPMAT = True, NP = 8, NPF = 4\<rparr> CELL
               [5, 7, 0, 0, 0, 0, 0, 0, 0, 0, 0, 0, 0, 0, 0, 0 :: int] of
         Inl e \<Rightarrow> False
       | Inr cF' \<Rightarrow> length cF' = 16 \<and> cF' ! 0 = 5 \<and> cF' ! 7 = 5 \<and> cF' ! 8 = 7 \<and> cF' ! 15 = 7)"
proof -
  let ?dg = "\<lparr>NPMAT = True, NP = 8, NPF = 4\<rparr>"
  let ?cF = "[5, 7, 0, 0, 0, 0, 0, 0, 0, 0, 0, 0, 0, 0, 0, 0 :: int]"
  have h1: "NPMAT ?dg \<or> (8::Int_t) = 1" by simp
  have h2: "select_block ?dg CELL = Some 8" by (simp add: select_block_def)
  have h3: "(1::Int_t) \<le> 8" by simp
  have h4: "length ?cF = 2 * unat (8::Int_t)" by simp
  have h5: "length ?cF \<le> 2147483648" by simp
  obtain cF' where r: "expand ?dg CELL ?cF = Inr cF'" and l: "length cF' = length ?cF"
    and p: "\<forall>e<2. \<forall>j<unat (8::Int_t). cF' ! (e * unat (8::Int_t) + j) = ?cF ! e"
    using expand_copies_element_value[OF h1 h2 h3 h4 h5] by blast
  have q: "cF' ! (e * 8 + j) = ?cF ! e" if "e < 2" "j < 8" for e j
    using p that by simp
  have "cF' ! (0 * 8 + 0) = ?cF ! 0" "cF' ! (0 * 8 + 7) = ?cF ! 0"
       "cF' ! (1 * 8 + 0) = ?cF ! 1" "cF' ! (1 * 8 + 7) = ?cF ! 1"
    by (rule q; simp)+
  then have "cF' ! 0 = 5 \<and> cF' ! 7 = 5 \<and> cF' ! 8 = 7 \<and> cF' ! 15 = 7" by simp
  with h1 h2 h3 h4 h5 r l show ?thesis by simp
qed

section \<open>Expanding a second time\<close>

text \<open>
  The second pass takes the value of element \<open>e\<close> from index \<open>e\<close> again, where the
  first pass has stored the value of element \<open>e div block\<close>.
\<close>

lemma expand_twice_result:
  assumes t: "NPMAT dg \<or> block = 1" and s: "select_block dg entity = Some block"
    and b: "1 \<le> block" and n: "length cF = n * unat block"
    and sz: "length cF \<le> 2147483648"
  shows "\<exists>cF''. expand_twice dg entity cF = Inr cF'' \<and> length cF'' = length cF \<and>
           (\<forall>idx<length cF. cF'' ! idx = cF ! (idx div unat block div unat block))"
proof -
  obtain cF' where r: "expand dg entity cF = Inr cF'" and l: "length cF' = length cF"
    and p: "\<forall>idx<length cF. cF' ! idx = cF ! (idx div unat block)"
    using expand_result[OF assms] by blast
  have n': "length cF' = n * unat block" and sz': "length cF' \<le> 2147483648"
    using l n sz by simp_all
  obtain cF'' where r': "expand dg entity cF' = Inr cF''" and l': "length cF'' = length cF'"
    and p': "\<forall>idx<length cF'. cF'' ! idx = cF' ! (idx div unat block)"
    using expand_result[OF t s b n' sz'] by blast
  have "cF'' ! idx = cF ! (idx div unat block div unat block)" if "idx < length cF" for idx
  proof -
    have "idx div unat block \<le> idx" by simp
    then have "idx div unat block < length cF" using that by (rule le_less_trans)
    then show ?thesis using p p' l that by simp
  qed
  with r r' l l' show ?thesis by (auto simp: expand_twice_def)
qed

text \<open>
  Claim C3 says that expanding twice gives the same field as expanding once.  For two
  elements with the values 1 and 2 and two nodes per element the first pass gives
  \<open>[1, 1, 2, 2]\<close> and the second \<open>[1, 1, 1, 1]\<close>.
\<close>

theorem expand_twice_differs:
  "(1::Int_t) \<le> NP \<lparr>NPMAT = True, NP = 2, NPF = 1\<rparr>
   \<and> length [1, 2, 0, 0 :: int] = 2 * unat (NP \<lparr>NPMAT = True, NP = 2, NPF = 1\<rparr>)
   \<and> expand \<lparr>NPMAT = True, NP = 2, NPF = 1\<rparr> CELL [1, 2, 0, 0 :: int] = Inr [1, 1, 2, 2]
   \<and> expand_twice \<lparr>NPMAT = True, NP = 2, NPF = 1\<rparr> CELL [1, 2, 0, 0 :: int] = Inr [1, 1, 1, 1]
   \<and> expand_twice \<lparr>NPMAT = True, NP = 2, NPF = 1\<rparr> CELL [1, 2, 0, 0 :: int]
       \<noteq> expand \<lparr>NPMAT = True, NP = 2, NPF = 1\<rparr> CELL [1, 2, 0, 0]"
  by (simp add: expand_twice_def expand_def select_block_def expand_loop.simps fill.simps)

text \<open>
  Claim C3, amended.  Under the hypotheses of claim C1, expanding twice succeeds and
  gives every node slot of element \<open>e\<close> the value of element \<open>e div block\<close>; it gives
  the same field as expanding once if and only if every element \<open>e < n\<close> has the same
  value as element \<open>e div block\<close>.  This is so when \<open>block = 1\<close>, when there is one
  element, and when all elements have the same value.
\<close>

theorem expand_twice_same_iff:
  assumes t: "NPMAT dg \<or> block = 1" and s: "select_block dg entity = Some block"
    and b: "1 \<le> block" and n: "length cF = n * unat block"
    and sz: "length cF \<le> 2147483648"
  shows "(\<exists>cF''. expand_twice dg entity cF = Inr cF'' \<and> length cF'' = length cF \<and>
            (\<forall>e<n. \<forall>j<unat block. cF'' ! (e * unat block + j) = cF ! (e div unat block)))
       \<and> (expand_twice dg entity cF = expand dg entity cF \<longleftrightarrow>
            (\<forall>e<n. cF ! (e div unat block) = cF ! e))"
proof -
  have b0: "0 < unat block" using b by (simp add: block_pos unat_gt_0)
  obtain cF' where r: "expand dg entity cF = Inr cF'" and l: "length cF' = length cF"
    and p: "\<forall>idx<length cF. cF' ! idx = cF ! (idx div unat block)"
    using expand_result[OF assms] by blast
  obtain cF'' where r': "expand_twice dg entity cF = Inr cF''" and l': "length cF'' = length cF"
    and p': "\<forall>idx<length cF. cF'' ! idx = cF ! (idx div unat block div unat block)"
    using expand_twice_result[OF assms] by blast
  have slots: "cF'' ! (e * unat block + j) = cF ! (e div unat block)"
    if "e < n" "j < unat block" for e j
    using p' slot_lt[OF that(2,1)] slot_div[OF that(2)] n by simp
  have iff: "expand_twice dg entity cF = expand dg entity cF \<longleftrightarrow>
            (\<forall>e<n. cF ! (e div unat block) = cF ! e)"
  proof
    assume "expand_twice dg entity cF = expand dg entity cF"
    then have eq: "cF'' = cF'" using r r' by simp
    show "\<forall>e<n. cF ! (e div unat block) = cF ! e"
    proof (intro allI impI)
      fix e assume e: "e < n"
      have i: "e * unat block + 0 < length cF" using slot_lt[OF b0 e] n by simp
      have "cF'' ! (e * unat block + 0) = cF' ! (e * unat block + 0)" using eq by simp
      then show "cF ! (e div unat block) = cF ! e"
        using p p' i slot_div[OF b0, of e] by simp
    qed
  next
    assume h: "\<forall>e<n. cF ! (e div unat block) = cF ! e"
    have "cF'' = cF'"
    proof (intro nth_equalityI)
      show "length cF'' = length cF'" using l l' by simp
      fix idx assume "idx < length cF''"
      then have i: "idx < length cF" using l' by simp
      then have "idx div unat block < n" using div_block_lt[OF b0] n by simp
      then show "cF'' ! idx = cF' ! idx" using h p p' i by simp
    qed
    then show "expand_twice dg entity cF = expand dg entity cF" using r r' by simp
  qed
  from r' l' slots iff show ?thesis by blast
qed

text \<open>Claim C3, amended, at two elements of equal value.\<close>

theorem expand_twice_same_iff_witness:
  "(NPMAT \<lparr>NPMAT = True, NP = 2, NPF = 1\<rparr> \<or> (2::Int_t) = 1)
   \<and> select_block \<lparr>NPMAT = True, NP = 2, NPF = 1\<rparr> CELL = Some 2
   \<and> (1::Int_t) \<le> 2
   \<and> length [4, 4, 0, 0 :: int] = 2 * unat (2::Int_t)
   \<and> length [4, 4, 0, 0 :: int] \<le> 2147483648
   \<and> expand_twice \<lparr>NPMAT = True, NP = 2, NPF = 1\<rparr> CELL [4, 4, 0, 0 :: int]
       = expand \<lparr>NPMAT = True, NP = 2, NPF = 1\<rparr> CELL [4, 4, 0, 0]"
proof -
  let ?dg = "\<lparr>NPMAT = True, NP = 2, NPF = 1\<rparr>"
  let ?cF = "[4, 4, 0, 0 :: int]"
  have h1: "NPMAT ?dg \<or> (2::Int_t) = 1" by simp
  have h2: "select_block ?dg CELL = Some 2" by (simp add: select_block_def)
  have h3: "(1::Int_t) \<le> 2" by simp
  have h4: "length ?cF = 2 * unat (2::Int_t)" by simp
  have h5: "length ?cF \<le> 2147483648" by simp
  have "?cF ! (e div unat (2::Int_t)) = ?cF ! e" if "e < 2" for e
  proof -
    from that have "e = 0 \<or> e = 1" by auto
    then show ?thesis by auto
  qed
  then have "expand_twice ?dg CELL ?cF = expand ?dg CELL ?cF"
    using expand_twice_same_iff[OF h1 h2 h3 h4 h5] by blast
  with h1 h2 h3 h4 h5 show ?thesis by simp
qed

section \<open>The order of reads and writes\<close>

text \<open>
  The logging loops compute the same field as the plain ones, and on a field of
  \<open>m * block\<close> entries, at most \<open>2^31\<close>, their trace is that of the elements
  \<open>m - 1, \<dots>, 0\<close> in turn.
\<close>

declare fill_log.simps [simp del] expand_loop_log.simps [simp del]

lemma fill_log_erase:
  "map_sum id fst (fill_log C i block j (cF, tr)) = fill C i block j cF"
proof (induction C i block j "(cF, tr)" arbitrary: cF tr rule: fill_log.induct)
  case (1 C i block j cF tr)
  show ?case
    using 1 by (subst fill_log.simps, subst fill.simps) simp
qed

lemma expand_loop_log_erase:
  "map_sum id fst (expand_loop_log block i (cF, tr)) = expand_loop block i cF"
proof (induction block i "(cF, tr)" arbitrary: cF tr rule: expand_loop_log.induct)
  case (1 block i cF tr)
  show ?case
  proof (cases "0 \<le> sint i \<and> block \<noteq> 0 \<and> unat (i div block) < length cF")
    case False
    then show ?thesis
      by (subst expand_loop_log.simps, subst expand_loop.simps) (auto simp: Let_def)
  next
    case True
    let ?ii = "i div block"
    have fe: "map_sum id fst (fill_log (cF ! unat ?ii) i block 0 (cF, tr @ [Read (unat ?ii)]))
                = fill (cF ! unat ?ii) i block 0 cF"
      by (rule fill_log_erase)
    show ?thesis
    proof (cases "fill_log (cF ! unat ?ii) i block 0 (cF, tr @ [Read (unat ?ii)])")
      case (Inl e)
      with fe have "fill (cF ! unat ?ii) i block 0 cF = Inl e" by simp
      with Inl True show ?thesis
        by (subst expand_loop_log.simps, subst expand_loop.simps) (simp add: Let_def)
    next
      case (Inr s)
      obtain cF1 tr1 where s: "s = (cF1, tr1)" by (cases s)
      with fe Inr have f: "fill (cF ! unat ?ii) i block 0 cF = Inr cF1" by simp
      have "map_sum id fst (expand_loop_log block (i - block) (cF1, tr1))
              = expand_loop block (i - block) cF1"
        using "1.hyps"[OF _ _ refl _ Inr[unfolded s]] True by simp
      with Inr s f True show ?thesis
        by (subst expand_loop_log.simps, subst expand_loop.simps) (simp add: Let_def)
    qed
  qed
qed

lemma expand_log_erase: "map_sum id fst (expand_log dg entity cF) = expand dg entity cF"
  by (simp add: expand_log_def expand_def expand_loop_log_erase split: option.split)

lemma fill_log_trace:
  "j \<le> block \<Longrightarrow> unat block \<le> unat i + 1 \<Longrightarrow> unat i < length cF \<Longrightarrow>
   \<exists>cF'. fill_log C i block j (cF, tr) =
           Inr (cF', tr @ map (\<lambda>t. Write (unat i - t)) [unat j..<unat block]) \<and>
         length cF' = length cF"
proof (induction C i block j "(cF, tr)" arbitrary: cF tr rule: fill_log.induct)
  case (1 C i block j cF tr)
  show ?case
  proof (cases "j < block")
    case False
    with "1.prems" have "j = block" by simp
    then show ?thesis by (subst fill_log.simps) simp
  next
    case True
    then have jlt: "unat j < unat block" by (simp add: word_less_nat_alt)
    then have jle: "unat j \<le> unat i" using "1.prems"(2) by simp
    then have "j \<le> i" by (simp add: word_le_nat_alt)
    then have sub: "unat (i - j) = unat i - unat j" by (rule unat_sub)
    have inb: "unat (i - j) < length cF" using sub "1.prems"(3) by simp
    have suc: "unat (j + 1) = unat j + 1" using True by (rule unat_succ_below)
    have jle': "j + 1 \<le> block" using True suc jlt by (simp add: word_le_nat_alt)
    let ?cF1 = "cF[unat (i - j) := C]"
    let ?tr1 = "tr @ [Write (unat (i - j))]"
    have "\<exists>cF'. fill_log C i block (j + 1) (?cF1, ?tr1) =
           Inr (cF', ?tr1 @ map (\<lambda>t. Write (unat i - t)) [unat (j + 1)..<unat block]) \<and>
         length cF' = length ?cF1"
      using "1.hyps"[OF True inb jle'] "1.prems" by simp
    moreover have "[unat j..<unat block] = unat j # [unat (j + 1)..<unat block]"
      unfolding suc using jlt by (simp add: upt_conv_Cons)
    ultimately show ?thesis using True inb sub by (subst fill_log.simps) simp
  qed
qed

lemma expand_loop_log_trace:
  fixes block :: Int_t
  assumes b0: "block \<noteq> 0"
  shows "m * unat block \<le> length cF \<Longrightarrow> m * unat block \<le> 2147483648 \<Longrightarrow>
   \<exists>cF'. expand_loop_log block (word_of_nat (m * unat block) - 1) (cF, tr) =
           Inr (cF', tr @ concat (map (element_accesses (unat block)) (rev [0..<m]))) \<and>
         length cF' = length cF"
proof (induction m arbitrary: cF tr)
  case 0
  then show ?case by (subst expand_loop_log.simps) simp
next
  case (Suc m)
  define b where "b = unat block"
  define M where "M = m * b"
  define N where "N = Suc m * b"
  define i :: Int_t where "i = word_of_nat N - 1"
  define i' :: Int_t where "i' = word_of_nat M - 1"
  have bpos: "0 < b" using b0 by (simp add: b_def unat_gt_0)
  have NM: "N = M + b" by (simp add: N_def M_def)
  have Nlen: "N \<le> length cF" and Nmax: "N \<le> 2147483648"
    using Suc.prems by (simp_all add: N_def b_def)
  have pos: "0 < N" using bpos NM by simp
  have ui: "unat i = N - 1" unfolding i_def using pos Nmax by (rule unat_counter)
  have i0: "0 \<le> sint i" unfolding sint_nonneg_32 ui using pos Nmax by linarith
  have "(N - 1) div b = m"
  proof -
    have "N - 1 = m * b + (b - 1)" using bpos NM M_def by simp
    moreover have "(m * b + (b - 1)) div b = m" using bpos by (intro slot_div) simp
    ultimately show ?thesis by simp
  qed
  then have idiv: "unat (i div block) = m" unfolding unat_div ui b_def .
  have mM: "m \<le> M" unfolding M_def using bpos by (cases b) auto
  have mlt: "m < length cF" using mM NM bpos Nlen by linarith
  have w: "map (\<lambda>t. Write (unat i - t)) [unat (0::Int_t)..<unat block] = map Write (rev [M..<M + b])"
  proof (intro nth_equalityI)
    show "length (map (\<lambda>t. Write (unat i - t)) [unat (0::Int_t)..<unat block])
            = length (map Write (rev [M..<M + b]))"
      by (simp add: b_def)
    fix t assume "t < length (map (\<lambda>t. Write (unat i - t)) [unat (0::Int_t)..<unat block])"
    then have t: "t < b" by (simp add: b_def)
    have "unat i - t = M + (b - Suc t)" unfolding ui NM using t by simp
    then show "map (\<lambda>t. Write (unat i - t)) [unat (0::Int_t)..<unat block] ! t
                 = map Write (rev [M..<M + b]) ! t"
      using t by (simp add: rev_nth b_def[symmetric])
  qed
  obtain cF1 where f: "fill_log (cF ! m) i block 0 (cF, tr @ [Read m]) =
      Inr (cF1, (tr @ [Read m]) @ map Write (rev [M..<M + b]))"
    and l1: "length cF1 = length cF"
  proof -
    have a: "unat block \<le> unat i + 1" unfolding ui using pos NM by (simp add: b_def)
    have c: "unat i < length cF" unfolding ui using pos Nlen by linarith
    from fill_log_trace[OF word_zero_le a c, of "cF ! m" "tr @ [Read m]"] that
    show ?thesis unfolding w by blast
  qed
  let ?tr1 = "(tr @ [Read m]) @ map Write (rev [M..<M + b])"
  have step: "i - block = i'"
  proof -
    have "(word_of_nat N :: Int_t) = word_of_nat M + word_of_nat b" unfolding NM by simp
    also have "(word_of_nat b :: Int_t) = block" unfolding b_def by simp
    finally show ?thesis unfolding i_def i'_def by simp
  qed
  obtain cF' where r: "expand_loop_log block i' (cF1, ?tr1) =
           Inr (cF', ?tr1 @ concat (map (element_accesses b) (rev [0..<m])))"
    and l': "length cF' = length cF1"
  proof -
    have "m * unat block \<le> length cF1" "m * unat block \<le> 2147483648"
      using Nlen Nmax NM l1 by (simp_all add: M_def b_def)
    from Suc.IH[OF this, of ?tr1] that show ?thesis unfolding i'_def M_def b_def by blast
  qed
  have e: "expand_loop_log block i (cF, tr) =
      Inr (cF', ?tr1 @ concat (map (element_accesses b) (rev [0..<m])))"
    using i0 b0 idiv mlt f r step by (subst expand_loop_log.simps) (simp add: Let_def)
  have "?tr1 @ concat (map (element_accesses b) (rev [0..<m])) =
        tr @ concat (map (element_accesses b) (rev [0..<Suc m]))"
    by (simp add: element_accesses_def M_def)
  with e l' l1 show ?case unfolding i_def N_def b_def by simp
qed

lemma clobber_free_writes:
  "clobber_free W (map Write ds @ l) = clobber_free (rev ds @ W) l"
  by (induction ds arbitrary: W) auto

lemma clobber_free_trace:
  "0 < block \<Longrightarrow> \<forall>w\<in>set W. m * block \<le> w \<Longrightarrow>
   clobber_free W (concat (map (element_accesses block) (rev [0..<m])))"
proof (induction m arbitrary: W)
  case 0
  then show ?case by simp
next
  case (Suc m)
  have notin: "m \<notin> set W"
  proof
    assume "m \<in> set W"
    then have "Suc m * block \<le> m" using Suc.prems by blast
    moreover have "m < Suc m * block" using Suc.prems(1) by (cases block) auto
    ultimately show False by simp
  qed
  have "\<forall>w\<in>set ([m * block..<m * block + block] @ W). m * block \<le> w"
    using Suc.prems(2) by auto
  from Suc.IH[OF Suc.prems(1) this] notin show ?case
    by (simp add: element_accesses_def clobber_free_writes)
qed

lemma reads_writes: "reads (map Write ds @ l) = reads l"
  by (induction ds) auto

lemma reads_trace: "reads (concat (map (element_accesses block) es)) = es"
  by (induction es) (auto simp: element_accesses_def reads_writes)

lemma sorted_rev_upt: "sorted_wrt (>) (rev [0..<m])"
  by (simp add: sorted_wrt_rev)

text \<open>
  What \<open>clobber_free\<close> checks, said with positions: whenever the trace reads an index,
  that index is not among those written beforehand and no earlier position of the trace
  writes it.
\<close>

lemma clobber_free_iff:
  "clobber_free W tr \<longleftrightarrow>
     (\<forall>p<length tr. \<forall>e. tr ! p = Read e \<longrightarrow> e \<notin> set W \<and> (\<forall>q<p. tr ! q \<noteq> Write e))"
proof (induction W tr rule: clobber_free.induct)
  case (1 W)
  show ?case by simp
next
  case (2 W e l)
  show ?case
  proof
    assume a: "clobber_free W (Read e # l)"
    then have e: "e \<notin> set W" and r: "clobber_free W l" by simp_all
    show "\<forall>p<length (Read e # l). \<forall>e'. (Read e # l) ! p = Read e' \<longrightarrow>
            e' \<notin> set W \<and> (\<forall>q<p. (Read e # l) ! q \<noteq> Write e')"
    proof (intro allI impI)
      fix p e' assume p: "p < length (Read e # l)" and h: "(Read e # l) ! p = Read e'"
      show "e' \<notin> set W \<and> (\<forall>q<p. (Read e # l) ! q \<noteq> Write e')"
      proof (cases p)
        case 0
        with h e show ?thesis by simp
      next
        case (Suc p')
        with p h have "p' < length l" "l ! p' = Read e'" by simp_all
        with r "2.IH" have "e' \<notin> set W" and n: "\<forall>q<p'. l ! q \<noteq> Write e'" by auto
        have "\<forall>q<p. (Read e # l) ! q \<noteq> Write e'"
        proof (intro allI impI)
          fix q assume "q < p"
          then show "(Read e # l) ! q \<noteq> Write e'" using n Suc by (cases q) auto
        qed
        with \<open>e' \<notin> set W\<close> show ?thesis by simp
      qed
    qed
  next
    assume a: "\<forall>p<length (Read e # l). \<forall>e'. (Read e # l) ! p = Read e' \<longrightarrow>
            e' \<notin> set W \<and> (\<forall>q<p. (Read e # l) ! q \<noteq> Write e')"
    from a[rule_format, of 0 e] have e: "e \<notin> set W" by simp
    have "\<forall>p<length l. \<forall>e'. l ! p = Read e' \<longrightarrow> e' \<notin> set W \<and> (\<forall>q<p. l ! q \<noteq> Write e')"
    proof (intro allI impI)
      fix p e' assume p: "p < length l" and h: "l ! p = Read e'"
      from a[rule_format, of "Suc p" e'] p h
      have 1: "e' \<notin> set W" and 2: "\<forall>q<Suc p. (Read e # l) ! q \<noteq> Write e'" by simp_all
      have "\<forall>q<p. l ! q \<noteq> Write e'"
      proof (intro allI impI)
        fix q assume "q < p"
        then have "Suc q < Suc p" by simp
        with 2 have "(Read e # l) ! Suc q \<noteq> Write e'" by blast
        then show "l ! q \<noteq> Write e'" by simp
      qed
      with 1 show "e' \<notin> set W \<and> (\<forall>q<p. l ! q \<noteq> Write e')" by simp
    qed
    with "2.IH" e show "clobber_free W (Read e # l)" by simp
  qed
next
  case (3 W d l)
  show ?case
  proof
    assume "clobber_free W (Write d # l)"
    then have r: "clobber_free (d # W) l" by simp
    show "\<forall>p<length (Write d # l). \<forall>e'. (Write d # l) ! p = Read e' \<longrightarrow>
            e' \<notin> set W \<and> (\<forall>q<p. (Write d # l) ! q \<noteq> Write e')"
    proof (intro allI impI)
      fix p e' assume p: "p < length (Write d # l)" and h: "(Write d # l) ! p = Read e'"
      then obtain p' where Suc: "p = Suc p'" by (cases p) auto
      with p h have "p' < length l" "l ! p' = Read e'" by simp_all
      with r "3.IH" have m: "e' \<notin> set (d # W)" and n: "\<forall>q<p'. l ! q \<noteq> Write e'" by auto
      have "\<forall>q<p. (Write d # l) ! q \<noteq> Write e'"
      proof (intro allI impI)
        fix q assume "q < p"
        then show "(Write d # l) ! q \<noteq> Write e'" using n m Suc by (cases q) auto
      qed
      with m show "e' \<notin> set W \<and> (\<forall>q<p. (Write d # l) ! q \<noteq> Write e')" by simp
    qed
  next
    assume a: "\<forall>p<length (Write d # l). \<forall>e'. (Write d # l) ! p = Read e' \<longrightarrow>
            e' \<notin> set W \<and> (\<forall>q<p. (Write d # l) ! q \<noteq> Write e')"
    have "\<forall>p<length l. \<forall>e'. l ! p = Read e' \<longrightarrow> e' \<notin> set (d # W) \<and> (\<forall>q<p. l ! q \<noteq> Write e')"
    proof (intro allI impI)
      fix p e' assume p: "p < length l" and h: "l ! p = Read e'"
      from a[rule_format, of "Suc p" e'] p h
      have 1: "e' \<notin> set W" and 2: "\<forall>q<Suc p. (Write d # l) ! q \<noteq> Write e'" by simp_all
      from 2 have "(Write d # l) ! 0 \<noteq> Write e'" by blast
      then have 3: "e' \<noteq> d" by auto
      have "\<forall>q<p. l ! q \<noteq> Write e'"
      proof (intro allI impI)
        fix q assume "q < p"
        then have "Suc q < Suc p" by simp
        with 2 have "(Write d # l) ! Suc q \<noteq> Write e'" by blast
        then show "l ! q \<noteq> Write e'" by simp
      qed
      with 1 3 show "e' \<notin> set (d # W) \<and> (\<forall>q<p. l ! q \<noteq> Write e')" by simp
    qed
    with "3.IH" show "clobber_free W (Write d # l)" by simp
  qed
qed

text \<open>
  Claim C4.  On a field of \<open>n * block\<close> entries with \<open>block \<ge> 1\<close>, the accesses of
  \<open>expand\<close> are, for the elements \<open>n - 1\<close> down to \<open>0\<close> in this order, one read of
  index \<open>e\<close> followed by the writes of \<open>e * block + block - 1\<close> down to \<open>e * block\<close>;
  a field of more than \<open>2^31\<close> entries is not accessed at all.  Every index written for
  element \<open>e\<close> is at least \<open>e\<close>; the indices read are strictly decreasing; and no
  index is read after it has been written, so each representative is still the original
  one when the loop reads it.  The field computed along with the trace is the one
  \<open>expand\<close> returns.  The size of a field is an \<open>Int\<close>, below \<open>2^32\<close>.
\<close>

theorem expand_reads_before_writes:
  assumes "NPMAT dg" and "select_block dg entity = Some block"
    and "1 \<le> block" and "length cF = n * unat block"
    and "length cF < 4294967296"
  shows "\<exists>cF' tr. expand_log dg entity cF = Inr (cF', tr) \<and>
           expand dg entity cF = Inr cF' \<and>
           tr = concat (map (element_accesses (unat block))
                  (rev [0..<(if length cF \<le> 2147483648 then n else 0)])) \<and>
           (\<forall>e<n. \<forall>d \<in> set [e * unat block..<e * unat block + unat block]. e \<le> d) \<and>
           sorted_wrt (>) (reads tr) \<and>
           clobber_free [] tr"
proof -
  have b0: "block \<noteq> 0" using assms(3) by (simp add: block_pos)
  then have bpos: "0 < unat block" by (simp add: unat_gt_0)
  define k where "k = (if length cF \<le> 2147483648 then n else 0)"
  let ?tr = "concat (map (element_accesses (unat block)) (rev [0..<k]))"
  have "\<exists>cF'. expand_loop_log block (word_of_nat (length cF) - 1) (cF, []) = Inr (cF', ?tr)"
  proof (cases "length cF \<le> 2147483648")
    case True
    have 1: "n * unat block \<le> length cF" using assms(4) by simp
    have 2: "n * unat block \<le> 2147483648" using assms(4) True by simp
    from expand_loop_log_trace[OF b0 1 2, of "[]"] assms(4) True show ?thesis
      by (auto simp: k_def)
  next
    case False
    then have "sint (word_of_nat (length cF) - 1 :: Int_t) < 0"
      using assms(5) by (intro oversize_start) simp_all
    then have "expand_loop_log block (word_of_nat (length cF) - 1) (cF, []) = Inr (cF, [])"
      by (subst expand_loop_log.simps) simp
    with False show ?thesis by (simp add: k_def)
  qed
  then obtain cF' where r: "expand_loop_log block (word_of_nat (length cF) - 1) (cF, []) = Inr (cF', ?tr)"
    by blast
  have el: "expand_log dg entity cF = Inr (cF', ?tr)"
    using r assms by (simp add: expand_log_def)
  have "map_sum id fst (expand_log dg entity cF) = expand dg entity cF" by (rule expand_log_erase)
  with el have ep: "expand dg entity cF = Inr cF'" by simp
  have d: "\<forall>e<n. \<forall>d \<in> set [e * unat block..<e * unat block + unat block]. e \<le> d"
  proof (intro allI impI ballI)
    fix e d assume "d \<in> set [e * unat block..<e * unat block + unat block]"
    then have "e * unat block \<le> d" by simp
    moreover have "e \<le> e * unat block" using bpos by (cases "unat block") auto
    ultimately show "e \<le> d" by (rule le_trans[rotated])
  qed
  have s: "sorted_wrt (>) (reads ?tr)" by (simp add: reads_trace sorted_rev_upt)
  have c: "clobber_free [] ?tr" using clobber_free_trace[OF bpos, of "[]" k] by simp
  from el ep d s c show ?thesis unfolding k_def by blast
qed

text \<open>Claim C4, at a cell field of two elements with two nodes each.\<close>

theorem expand_reads_before_writes_witness:
  "NPMAT \<lparr>NPMAT = True, NP = 2, NPF = 1\<rparr>
   \<and> select_block \<lparr>NPMAT = True, NP = 2, NPF = 1\<rparr> CELL = Some 2
   \<and> (1::Int_t) \<le> 2
   \<and> length [4, 9, 0, 0 :: int] = 2 * unat (2::Int_t)
   \<and> length [4, 9, 0, 0 :: int] < 4294967296
   \<and> (case expand_log \<lparr>NPMAT = True, NP = 2, NPF = 1\<rparr> CELL [4, 9, 0, 0 :: int] of
         Inl e \<Rightarrow> False
       | Inr (cF', tr) \<Rightarrow> tr = [Read 1, Write 3, Write 2, Read 0, Write 1, Write 0]
                        \<and> clobber_free [] tr)"
proof -
  let ?dg = "\<lparr>NPMAT = True, NP = 2, NPF = 1\<rparr>"
  let ?cF = "[4, 9, 0, 0 :: int]"
  have h1: "NPMAT ?dg" by simp
  have h2: "select_block ?dg CELL = Some 2" by (simp add: select_block_def)
  have h3: "(1::Int_t) \<le> 2" by simp
  have h4: "length ?cF = 2 * unat (2::Int_t)" by simp
  have h5: "length ?cF < 4294967296" by simp
  obtain cF' tr where r: "expand_log ?dg CELL ?cF = Inr (cF', tr)"
    and t: "tr = concat (map (element_accesses (unat (2::Int_t)))
                  (rev [0..<(if length ?cF \<le> 2147483648 then 2 else 0)]))"
    and c: "clobber_free [] tr"
    using expand_reads_before_writes[OF h1 h2 h3 h4 h5] by blast
  have "rev [0..<2] = [1, 0::nat]" by (simp add: upt_rec)
  then have "tr = [Read 1, Write 3, Write 2, Read 0, Write 1, Write 0]"
    using t by (simp add: element_accesses_def upt_rec)
  with h1 h2 h3 h4 h5 r c show ?thesis by simp
qed

section \<open>Block size and the case of a single node\<close>

text \<open>
  With block size 1 every pass writes the entry it has read, whatever the size of the
  field: the counter starts inside the field or negative.
\<close>

lemma fill_unit_block:
  assumes "unat i < length cF"
  shows "fill (cF ! unat i) i 1 0 cF = Inr cF"
proof -
  have "fill (cF ! unat i) i 1 1 (cF[unat i := cF ! unat i]) = Inr (cF[unat i := cF ! unat i])"
    by (subst fill.simps) simp
  then show ?thesis using assms by (subst fill.simps) simp
qed

lemma expand_loop_unit_block:
  "unat i < length cF \<or> sint i < 0 \<Longrightarrow> expand_loop 1 i cF = Inr cF"
proof (induction "unat i" arbitrary: i rule: less_induct)
  case less
  show ?case
  proof (cases "sint i < 0")
    case True
    then show ?thesis by (rule expand_loop_negative)
  next
    case False
    with less.prems have l: "unat i < length cF" by simp
    have f: "fill (cF ! unat i) i 1 0 cF = Inr cF" using l by (rule fill_unit_block)
    have next_ok: "expand_loop 1 (i - 1) cF = Inr cF"
    proof (cases "i = 0")
      case True
      then have "sint (i - 1) < 0" by simp
      then show ?thesis by (rule expand_loop_negative)
    next
      case False
      then have u: "unat (i - 1) = unat i - 1" by (rule unat_minus_one)
      have "0 < unat i" using False by (simp add: unat_gt_0)
      with u have "unat (i - 1) < unat i" by simp
      moreover have "unat (i - 1) < length cF" using u l by linarith
      then have "unat (i - 1) < length cF \<or> sint (i - 1) < 0" ..
      ultimately show ?thesis by (rule less.hyps)
    qed
    show ?thesis
      using \<open>\<not> sint i < 0\<close> l f next_ok by (subst expand_loop.simps) (simp add: Let_def)
  qed
qed

lemma start_in_field_or_negative:
  "unat (word_of_nat len - 1 :: Int_t) < len \<or> sint (word_of_nat len - 1 :: Int_t) < 0"
proof (cases "(word_of_nat len :: Int_t) = 0")
  case True
  then show ?thesis by simp
next
  case False
  then have "unat (word_of_nat len - 1 :: Int_t) = unat (word_of_nat len :: Int_t) - 1"
    by (rule unat_minus_one)
  moreover have "unat (word_of_nat len :: Int_t) \<le> len" by (simp add: unat_of_nat)
  moreover have "0 < unat (word_of_nat len :: Int_t)" using False by (simp add: unat_gt_0)
  ultimately show ?thesis by linarith
qed

text \<open>
  Claim C6.  With a single node per element no expansion table is allocated, and
  \<open>expand\<close> returns the field as it was given.  The same holds with a table when the
  block size chosen for the field is 1: each entry is overwritten with itself.
\<close>

theorem expand_noop_single_node:
  assumes "\<not> NPMAT dg \<or> select_block dg entity = Some 1"
  shows "expand dg entity cF = Inr cF"
proof (cases "NPMAT dg")
  case False
  then show ?thesis by (simp add: expand_def)
next
  case True
  with assms have s: "select_block dg entity = Some 1" by simp
  from expand_loop_unit_block[OF start_in_field_or_negative, of cF] True s
  show ?thesis by (simp add: expand_def)
qed

text \<open>Claim C6, without a table and with a table and block size 1.\<close>

theorem expand_noop_single_node_witness:
  "expand \<lparr>NPMAT = False, NP = 1, NPF = 1\<rparr> CELL [3, 1, 4 :: int] = Inr [3, 1, 4]
   \<and> expand \<lparr>NPMAT = True, NP = 1, NPF = 1\<rparr> FACET [3, 1, 4 :: int] = Inr [3, 1, 4]"
  using expand_noop_single_node[of "\<lparr>NPMAT = False, NP = 1, NPF = 1\<rparr>" CELL "[3, 1, 4 :: int]"]
    expand_noop_single_node[of "\<lparr>NPMAT = True, NP = 1, NPF = 1\<rparr>" FACET "[3, 1, 4 :: int]"]
  by (simp add: select_block_def)

text \<open>
  Claim C7.  With an expansion table, a cell field is expanded in blocks of \<open>NP\<close> and
  a face field in blocks of \<open>NPF\<close>: for a cell field of \<open>n * NP\<close> entries the result
  holds at every index \<open>idx\<close> the old entry \<open>idx div NP\<close>, and for a face field of
  \<open>nf * NPF\<close> entries the old entry \<open>idx div NPF\<close>.  Both fields have at most
  \<open>2^31\<close> entries.
\<close>

theorem expand_block_by_entity:
  assumes "NPMAT dg"
    and "1 \<le> NP dg" and "length cF = n * unat (NP dg)" and "length cF \<le> 2147483648"
    and "1 \<le> NPF dg" and "length fF = nf * unat (NPF dg)" and "length fF \<le> 2147483648"
  shows "expand dg CELL cF = Inr (map (\<lambda>idx. cF ! (idx div unat (NP dg))) [0..<length cF])
       \<and> expand dg FACET fF = Inr (map (\<lambda>idx. fF ! (idx div unat (NPF dg))) [0..<length fF])"
proof -
  have t: "NPMAT dg \<or> b = 1" for b :: Int_t using assms(1) by simp
  have c: "select_block dg CELL = Some (NP dg)" and f: "select_block dg FACET = Some (NPF dg)"
    by (simp_all add: select_block_def)
  obtain cF' where rc: "expand dg CELL cF = Inr cF'" and lc: "length cF' = length cF"
    and pc: "\<forall>idx<length cF. cF' ! idx = cF ! (idx div unat (NP dg))"
    using expand_result[OF t c assms(2,3,4)] by blast
  obtain fF' where rf: "expand dg FACET fF = Inr fF'" and lf: "length fF' = length fF"
    and pf: "\<forall>idx<length fF. fF' ! idx = fF ! (idx div unat (NPF dg))"
    using expand_result[OF t f assms(5,6,7)] by blast
  have "cF' = map (\<lambda>idx. cF ! (idx div unat (NP dg))) [0..<length cF]"
    using lc pc by (intro nth_equalityI) simp_all
  moreover have "fF' = map (\<lambda>idx. fF ! (idx div unat (NPF dg))) [0..<length fF]"
    using lf pf by (intro nth_equalityI) simp_all
  ultimately show ?thesis using rc rf by simp
qed

text \<open>
  Claim C7, at \<open>NP = 8\<close> and \<open>NPF = 4\<close>: the same eight entries are one cell or two
  faces.
\<close>

theorem expand_block_by_entity_witness:
  "NPMAT \<lparr>NPMAT = True, NP = 8, NPF = 4\<rparr>
   \<and> (1::Int_t) \<le> NP \<lparr>NPMAT = True, NP = 8, NPF = 4\<rparr>
   \<and> (1::Int_t) \<le> NPF \<lparr>NPMAT = True, NP = 8, NPF = 4\<rparr>
   \<and> length [6, 9, 0, 0, 0, 0, 0, 0 :: int] = 1 * unat (NP \<lparr>NPMAT = True, NP = 8, NPF = 4\<rparr>)
   \<and> length [6, 9, 0, 0, 0, 0, 0, 0 :: int] = 2 * unat (NPF \<lparr>NPMAT = True, NP = 8, NPF = 4\<rparr>)
   \<and> length [6, 9, 0, 0, 0, 0, 0, 0 :: int] \<le> 2147483648
   \<and> expand \<lparr>NPMAT = True, NP = 8, NPF = 4\<rparr> CELL [6, 9, 0, 0, 0, 0, 0, 0 :: int]
       = Inr [6, 6, 6, 6, 6, 6, 6, 6]
   \<and> expand \<lparr>NPMAT = True, NP = 8, NPF = 4\<rparr> FACET [6, 9, 0, 0, 0, 0, 0, 0 :: int]
       = Inr [6, 6, 6, 6, 9, 9, 9, 9]"
proof -
  let ?dg = "\<lparr>NPMAT = True, NP = 8, NPF = 4\<rparr>"
  let ?cF = "[6, 9, 0, 0, 0, 0, 0, 0 :: int]"
  have h1: "NPMAT ?dg" by simp
  have h2: "1 \<le> NP ?dg" and h5: "1 \<le> NPF ?dg" by simp_all
  have h3: "length ?cF = 1 * unat (NP ?dg)" and h6: "length ?cF = 2 * unat (NPF ?dg)" by simp_all
  have h4: "length ?cF \<le> 2147483648" by simp
  from expand_block_by_entity[OF h1 h2 h3 h4 h5 h6 h4] h1 h2 h3 h4 h5 h6 show ?thesis by simp
qed

section \<open>The gradient assembled by \<open>DPSI\<close>\<close>

text \<open>
  Claim C5.  For each direction \<open>m\<close> of 0, 1, 2, component \<open>m\<close> of the vector
  \<open>dpsi_j\<close> for basis function \<open>(ii, jj, kk)\<close> at node \<open>(i, j, k)\<close> is the product,
  over the directions 0, 1, 2 in this order, of the entry of \<open>dpsi\<close> in direction
  \<open>m\<close> and the entries of \<open>psi\<close> in the other two directions, each taken at the basis
  index and node index of its direction.
\<close>

theorem DPSI_component_product:
  fixes psi dpsi :: "nat \<Rightarrow> nat \<Rightarrow> nat \<Rightarrow> 'a::times" and i j k :: nat
  assumes "m < 3"
  shows "vcomp (DPSI psi dpsi ii jj kk i j k) m =
           (let basis = [ii, jj, kk]; node = [i, j, k];
                factor = (\<lambda>d. (if d = m then dpsi else psi) d (basis ! d) (node ! d))
            in factor 0 * factor 1 * factor 2)"
proof -
  from assms have "m = 0 \<or> m = 1 \<or> m = 2" by auto
  then show ?thesis by (auto simp: DPSI_def Let_def)
qed

text \<open>Claim C5, for the second component and integer tables.\<close>

theorem DPSI_component_product_witness:
  "(1::nat) < 3 \<and>
   vcomp (DPSI (\<lambda>d b n. int (1 + d + 2 * b + 3 * n)) (\<lambda>d b n. - int (d + b + n)) 1 0 1 0 1 1) 1
     = 3 * (- 2) * 8"
  using DPSI_component_product[of 1 "\<lambda>d b n. int (1 + d + 2 * b + 3 * n)" "\<lambda>d b n. - int (d + b + n)" 1 0 1 0 1 1]
  by (simp add: Let_def)

section \<open>The laminar base model\<close>

text \<open>
  Claim C9.  Whatever the state of the base model, \<open>getReynoldsStress\<close> returns the
  field whose every entry is the symmetric tensor with all six components zero, and
  \<open>getK\<close> the field whose every entry is zero.
\<close>

theorem laminar_zero_stress_and_energy:
  fixes tm :: "('s::zero) Turbulence_Model"
  shows "getReynoldsStress ncells tm = replicate ncells (STensor6 0 0 0 0 0 0)
       \<and> getK ncells tm = replicate ncells 0"
  by (simp add: getReynoldsStress_def getK_def uniform_field_def STensor_def)

section \<open>The wall function of the k-x model\<close>

lemma then_do_Inr [simp]: "then_do (Inr v) g = g v"
  by (simp add: then_do_def)

lemma then_do_Inl [simp]: "then_do (Inl e) g = Inl e"
  by (simp add: then_do_def)

lemma read_at_in [simp]: "n < length fld \<Longrightarrow> read_at fld n = Inr (fld ! n)"
  by (simp add: read_at_def)

lemma write_at_in [simp]: "n < length fld \<Longrightarrow> write_at fld n v = Inr (fld[n := v])"
  by (simp add: write_at_def)

text \<open>
  Claim C10.  Let the indices used at face \<open>f\<close> be inside their arrays and \<open>c1\<close> be
  the owner cell of \<open>f\<close>.  With \<open>wallModel = STANDARD\<close> the call returns the state in
  which \<open>k[c1]\<close> is \<open>pow(ustar, 2) / sqrt(Cmu)\<close>, \<open>x[c1]\<close> and \<open>eddy_mu[c1]\<close> are
  set, and nothing else has changed, \<open>Pk\<close> included.  With \<open>wallModel = LAUNDER\<close>,
  \<open>ustar\<close> is formed from \<open>k[c1]\<close>, the call returns the state in which \<open>x[c1]\<close>,
  \<open>eddy_mu[c1]\<close> and \<open>Pk[c1]\<close> are set, and nothing else has changed, \<open>k\<close>
  included.  With \<open>wallModel = NONE\<close> no branch assigns \<open>ustar\<close> before it is read.
\<close>

theorem applyWallFunction_frame:
  fixes st :: "('s::{times,inverse,minus}) KX_Model"
  assumes ok: "wall_face_ok mesh st f"
  shows "let c1 = gFO mesh ! f; c2 = gFN mesh ! f;
             y = mag L (dot L (unit L (fN mesh ! f)) (subV L (cC mesh ! c1) (cC mesh ! c2)));
             ustar = (if wallModel st = STANDARD
                      then getUstar low (nu st) (magV L (U st ! c1)) y
                      else pow L (Cmu st) (lit L 0.25) * sqrt_s L (k st ! c1));
             yp = (ustar * y) / nu st;
             emu = (rho st * nu st) * (yp / getUp low ustar (nu st) yp - lit L 1);
             mag_dudy = magV L (divV L (subV L (U st ! c2) (U st ! c1)) y);
             mag_dudy_log = ustar / (kappa low * y)
         in applyWallFunction L mesh calcX f low st =
              (case wallModel st of
                 STANDARD \<Rightarrow>
                   Inr (st\<lparr>eddy_mu := (eddy_mu st)[c1 := emu],
                           k := (k st)[c1 := pow L ustar (lit L 2) / sqrt_s L (Cmu st)],
                           x := (x st)[c1 := calcX ustar (kappa low) y]\<rparr>)
               | LAUNDER \<Rightarrow>
                   Inr (st\<lparr>eddy_mu := (eddy_mu st)[c1 := emu],
                           x := (x st)[c1 := calcX ustar (kappa low) y],
                           Pk := (Pk st)[c1 := (mag_dudy * mag_dudy_log) * emu]\<rparr>)
               | NONE \<Rightarrow> Inl UnassignedUstar)"
proof (cases "wallModel st")
  case STANDARD
  then show ?thesis
    using ok unfolding wall_face_ok_def
    by (simp add: applyWallFunction_def calc_ustar_def getCmu_def Let_def)
next
  case LAUNDER
  then show ?thesis
    using ok unfolding wall_face_ok_def
    by (simp add: applyWallFunction_def calc_ustar_def getCmu_def Let_def)
next
  case NONE
  then show ?thesis
    using ok unfolding wall_face_ok_def
    by (simp add: applyWallFunction_def calc_ustar_def getCmu_def Let_def)
qed

text \<open>Claim C10, at one wall face between two cells, with \<open>wallModel = LAUNDER\<close>.\<close>

theorem applyWallFunction_frame_witness:
  "wall_face_ok
     \<lparr>gFO = [0], gFN = [1], fN = [Vector 0 0 1], cC = [Vector 0 0 1, Vector 0 0 0]\<rparr>
     \<lparr>U = [Vector 1 0 0, Vector 0 0 0], F = [], rho = 1, nu = 1, Steady = False,
      eddy_mu = [0, 0], modelType = SMAGORNSKY, wallModel = LAUNDER,
      Cmu = 1, SigmaK = 1, SigmaX = 1, C1x = 1, C2x = 1, k_UR = 1, x_UR = 1,
      k = [4, 0], x = [0, 0], Pk = [0, 0 :: real]\<rparr> 0
   \<and> applyWallFunction
     \<lparr>mag = abs, magV = (\<lambda>v. \<bar>vcomp v 0\<bar> + \<bar>vcomp v 1\<bar> + \<bar>vcomp v 2\<bar>),
      unit = (\<lambda>v. v),
      dot = (\<lambda>a b. vcomp a 0 * vcomp b 0 + vcomp a 1 * vcomp b 1 + vcomp a 2 * vcomp b 2),
      subV = (\<lambda>a b. Vector (vcomp a 0 - vcomp b 0) (vcomp a 1 - vcomp b 1) (vcomp a 2 - vcomp b 2)),
      divV = (\<lambda>a s. Vector (vcomp a 0 / s) (vcomp a 1 / s) (vcomp a 2 / s)),
      pow = (powr), sqrt_s = sqrt, lit = (\<lambda>r. r)\<rparr>
     \<lparr>gFO = [0], gFN = [1], fN = [Vector 0 0 1], cC = [Vector 0 0 1, Vector 0 0 0]\<rparr>
     (\<lambda>ustar kap y. ustar * kap * y) 0
     \<lparr>kappa = 1, getUstar = (\<lambda>a b c. a), getUp = (\<lambda>a b c. 1)\<rparr>
     \<lparr>U = [Vector 1 0 0, Vector 0 0 0], F = [], rho = 1, nu = 1, Steady = False,
      eddy_mu = [0, 0], modelType = SMAGORNSKY, wallModel = LAUNDER,
      Cmu = 1, SigmaK = 1, SigmaX = 1, C1x = 1, C2x = 1, k_UR = 1, x_UR = 1,
      k = [4, 0], x = [0, 0], Pk = [0, 0 :: real]\<rparr>
   = Inr \<lparr>U = [Vector 1 0 0, Vector 0 0 0], F = [], rho = 1, nu = 1, Steady = False,
      eddy_mu = [1, 0], modelType = SMAGORNSKY, wallModel = LAUNDER,
      Cmu = 1, SigmaK = 1, SigmaX = 1, C1x = 1, C2x = 1, k_UR = 1, x_UR = 1,
      k = [4, 0], x = [2, 0], Pk = [2, 0]\<rparr>"
proof -
  let ?mesh = "\<lparr>gFO = [0], gFN = [1], fN = [Vector (0::real) 0 1], cC = [Vector 0 0 1, Vector 0 0 0]\<rparr>"
  let ?st = "\<lparr>U = [Vector 1 0 0, Vector 0 0 0], F = [], rho = 1, nu = 1, Steady = False,
      eddy_mu = [0, 0], modelType = SMAGORNSKY, wallModel = LAUNDER,
      Cmu = 1, SigmaK = 1, SigmaX = 1, C1x = 1, C2x = 1, k_UR = 1, x_UR = 1,
      k = [4, 0], x = [0, 0], Pk = [0, 0 :: real]\<rparr>"
  have ok: "wall_face_ok ?mesh ?st 0" by (simp add: wall_face_ok_def)
  show ?thesis
    using ok applyWallFunction_frame[OF ok, where L = "\<lparr>mag = abs, magV = (\<lambda>v. \<bar>vcomp v 0\<bar> + \<bar>vcomp v 1\<bar> + \<bar>vcomp v 2\<bar>),
      unit = (\<lambda>v. v),
      dot = (\<lambda>a b. vcomp a 0 * vcomp b 0 + vcomp a 1 * vcomp b 1 + vcomp a 2 * vcomp b 2),
      subV = (\<lambda>a b. Vector (vcomp a 0 - vcomp b 0) (vcomp a 1 - vcomp b 1) (vcomp a 2 - vcomp b 2)),
      divV = (\<lambda>a s. Vector (vcomp a 0 / s) (vcomp a 1 / s) (vcomp a 2 / s)),
      pow = (powr), sqrt_s = sqrt, lit = (\<lambda>r. r)\<rparr>"
      and calcX = "\<lambda>ustar kap y. ustar * kap * y"
      and low = "\<lparr>kappa = 1, getUstar = (\<lambda>a b c. a), getUp = (\<lambda>a b c. 1)\<rparr>"]
    by (simp add: Let_def)
qed

end
